theory Spec2Isabelle
  imports
    Main
    "HOL-Library.Word"
    "HOL-Library.Char_ord"
    "HOL-Library.List_Lexorder"
    "HOL-Library.Multiset"
begin

section \<open>Python values shared by \<^verbatim>\<open>ffmpeg.py\<close> and \<^verbatim>\<open>main.py\<close>\<close>

text \<open>
  The exceptions that the two modules can meet.  \<^verbatim>\<open>except Exception\<close> catches every one
  of them; a clause that names classes catches exactly the named constructors (none of
  the classes named in the source is a superclass of another constructor listed here).
\<close>

datatype py_exception =
    CalledProcessError int
  | FileNotFoundError
  | PermissionError
  | OSError
  | ValueError
  | IndexError
  | ZeroDivisionError
  | OverflowError
  | UnidentifiedImageError

text \<open>What \<^verbatim>\<open>print\<close> writes: a fixed text, or an f-string that ends with an exception.\<close>

datatype message =
    Print string
  | Print_exc string py_exception

subsection \<open>Strings\<close>

text \<open>
  \<^verbatim>\<open>str.strip()\<close> and \<^verbatim>\<open>int()\<close> treat as white space the characters 9 to 13, 28 to 31
  and 32 (within ASCII, which is what the probe prints).
\<close>

definition py_isspace :: "char \<Rightarrow> bool" where
  "py_isspace c = (let n = (of_char c :: nat) in (9 \<le> n \<and> n \<le> 13) \<or> (28 \<le> n \<and> n \<le> 32))"

definition str_strip :: "string \<Rightarrow> string" where
  "str_strip s = rev (dropWhile py_isspace (rev (dropWhile py_isspace s)))"

text \<open>\<^verbatim>\<open>s.split(sep)\<close> for a one-character separator: always at least one piece.\<close>

fun str_split :: "char \<Rightarrow> string \<Rightarrow> string list" where
  "str_split sep [] = [[]]"
| "str_split sep (c # cs) =
     (if c = sep then [] # str_split sep cs
      else (case str_split sep cs of
              [] \<Rightarrow> [[c]]
            | p # ps \<Rightarrow> (c # p) # ps))"

definition is_digit :: "char \<Rightarrow> bool" where
  "is_digit c = (let n = (of_char c :: nat) in 48 \<le> n \<and> n \<le> 57)"

definition digit_val :: "char \<Rightarrow> nat" where
  "digit_val c = of_char c - 48"

text \<open>
  The digits of a decimal literal after its first digit: a digit, or one underscore
  followed by a digit.  The result is the value and the number of digits read.
\<close>

fun parse_digits :: "nat \<Rightarrow> nat \<Rightarrow> string \<Rightarrow> (nat \<times> nat) option" where
  "parse_digits acc cnt [] = Some (acc, cnt)"
| "parse_digits acc cnt (c # cs) =
     (if is_digit c then parse_digits (acc * 10 + digit_val c) (Suc cnt) cs
      else if c = CHR ''_'' then
        (case cs of
           [] \<Rightarrow> None
         | d # ds \<Rightarrow>
             if is_digit d then parse_digits (acc * 10 + digit_val d) (Suc cnt) ds
             else None)
      else None)"

definition parse_literal :: "string \<Rightarrow> (nat \<times> nat) option" where
  "parse_literal body =
     (case body of
        [] \<Rightarrow> None
      | c # cs \<Rightarrow> if is_digit c then parse_digits (digit_val c) 1 cs else None)"

text \<open>
  \<^verbatim>\<open>int(s)\<close> in base 10: white space around, an optional sign, digits with single
  underscores between them.  \<open>None\<close> is \<^verbatim>\<open>ValueError\<close>.  \<open>max_digits\<close> is the
  interpreter's limit on the number of digits of a literal (\<open>0\<close>: no limit, as in the
  interpreters that have no such setting).
\<close>

definition py_int :: "nat \<Rightarrow> string \<Rightarrow> int option" where
  "py_int max_digits s =
     (let t = str_strip s;
          neg = (t \<noteq> [] \<and> hd t = CHR ''-'');
          body = (if t \<noteq> [] \<and> (hd t = CHR ''-'' \<or> hd t = CHR ''+'') then tl t else t)
      in case parse_literal body of
           None \<Rightarrow> None
         | Some (v, cnt) \<Rightarrow>
             if 0 < max_digits \<and> max_digits < cnt then None
             else Some (if neg then - int v else int v))"

text \<open>\<^verbatim>\<open>str(n)\<close> for an integer.\<close>

fun str_nat :: "nat \<Rightarrow> string" where
  "str_nat n =
     (if n < 10 then [''0123456789'' ! n]
      else str_nat (n div 10) @ [''0123456789'' ! (n mod 10)])"

declare str_nat.simps [simp del]

definition str_int :: "int \<Rightarrow> string" where
  "str_int i = (if i < 0 then CHR ''-'' # str_nat (nat (- i)) else str_nat (nat i))"

text \<open>\<^verbatim>\<open>os.path.join\<close> of two components (POSIX separator).\<close>

definition path_join :: "string \<Rightarrow> string \<Rightarrow> string" where
  "path_join a b =
     (if b \<noteq> [] \<and> hd b = CHR ''/'' then b
      else if a = [] \<or> last a = CHR ''/'' then a @ b
      else a @ ''/'' @ b)"

subsection \<open>True division of integers and \<^verbatim>\<open>round\<close>\<close>

text \<open>
  A finite double is kept as sign, mantissa and exponent: its value is
  \<open>\<plusminus> mantissa * 2 ^ exponent\<close>.
\<close>

datatype py_float = PyFloat (negative: bool) (mantissa: nat) (exponent: int)

text \<open>The integer nearest to \<open>n / d\<close>, a tie going to the even neighbour (\<open>0 < d\<close>).\<close>

definition round_half_even :: "nat \<Rightarrow> nat \<Rightarrow> nat" where
  "round_half_even n d =
     (let q = n div d; r = n mod d
      in if 2 * r < d then q
         else if d < 2 * r then q + 1
         else if even q then q else q + 1)"

fun bit_length :: "nat \<Rightarrow> nat" where
  "bit_length n = (if n = 0 then 0 else Suc (bit_length (n div 2)))"

declare bit_length.simps [simp del]

text \<open>For \<open>0 < n\<close> and \<open>0 < d\<close>: the \<open>e\<close> with \<open>2 ^ e \<le> n / d < 2 ^ (e + 1)\<close>.\<close>

definition floor_log2 :: "nat \<Rightarrow> nat \<Rightarrow> int" where
  "floor_log2 n d =
     (let k = int (bit_length n) - int (bit_length d)
      in if (if 0 \<le> k then d * 2 ^ nat k \<le> n else d \<le> n * 2 ^ nat (- k)) then k else k - 1)"

text \<open>
  \<open>n / d\<close> rounded to the nearest double (53 bits of mantissa, exponent of the last bit
  at least \<open>-1074\<close>, ties to even): mantissa and exponent, or \<open>None\<close> when the rounded
  value would reach \<open>2 ^ 1024\<close>.
\<close>

definition truediv_magnitude :: "nat \<Rightarrow> nat \<Rightarrow> (nat \<times> int) option" where
  "truediv_magnitude n d =
     (if n = 0 then Some (0, 0)
      else
        let e = floor_log2 n d;
            p = max (e - 52) (- 1074);
            m = (if 0 \<le> p then round_half_even n (d * 2 ^ nat p)
                 else round_half_even (n * 2 ^ nat (- p)) d)
        in if 971 < p \<or> (p = 971 \<and> 2 ^ 53 \<le> m) then None else Some (m, p))"

text \<open>\<^verbatim>\<open>a / b\<close> on two \<^verbatim>\<open>int\<close>s: the correctly rounded quotient, or an exception.\<close>

definition py_truediv :: "int \<Rightarrow> int \<Rightarrow> py_exception + py_float" where
  "py_truediv a b =
     (if b = 0 then Inl ZeroDivisionError
      else case truediv_magnitude (nat \<bar>a\<bar>) (nat \<bar>b\<bar>) of
             None \<Rightarrow> Inl OverflowError
           | Some (m, p) \<Rightarrow> Inr (PyFloat ((a < 0) \<noteq> (b < 0)) m p))"

text \<open>\<^verbatim>\<open>round(x)\<close> with one argument: the nearest \<^verbatim>\<open>int\<close>, ties to even.\<close>

definition py_round :: "py_float \<Rightarrow> int" where
  "py_round x =
     (let r = (if 0 \<le> exponent x then mantissa x * 2 ^ nat (exponent x)
               else round_half_even (mantissa x) (2 ^ nat (- exponent x)))
      in if negative x then - int r else int r)"

section \<open>\<^verbatim>\<open>ffmpeg.py\<close>\<close>

definition FFMPEG_PATH :: string where
  "FFMPEG_PATH = path_join (path_join ''ffmpeg'' ''bin'') ''ffmpeg.exe''"

definition FFPROBE_PATH :: string where
  "FFPROBE_PATH = path_join (path_join ''ffmpeg'' ''bin'') ''ffprobe.exe''"

subsection \<open>The host: directories and child processes\<close>

record completed_process =
  returncode :: int
  stdout :: string

text \<open>
  What the machine answers during one run: whether a directory can be made, whether a
  program can be started (by its path), and what a started command line exits with and
  prints.
\<close>

record host =
  int_max_str_digits :: nat
  makedirs_failure :: "string \<Rightarrow> py_exception option"
  launch_failure :: "string \<Rightarrow> py_exception option"
  child_result :: "string list \<Rightarrow> completed_process"

datatype stream = Inherit | Capture | DEVNULL

record run_call =
  args :: "string list"
  check :: bool
  stdout_to :: stream
  stderr_to :: stream

text \<open>
  \<^verbatim>\<open>subprocess.run\<close>: starting the program may raise; with \<^verbatim>\<open>check=True\<close> an exit status
  other than zero raises \<^verbatim>\<open>CalledProcessError\<close>; with \<^verbatim>\<open>check=False\<close> it does not.
\<close>

definition subprocess_run :: "host \<Rightarrow> run_call \<Rightarrow> py_exception + completed_process" where
  "subprocess_run h c =
     (case args c of
        [] \<Rightarrow> Inl IndexError
      | prog # _ \<Rightarrow>
          (case launch_failure h prog of
             Some e \<Rightarrow> Inl e
           | None \<Rightarrow>
               let r = child_result h (args c)
               in if check c \<and> returncode r \<noteq> 0 then Inl (CalledProcessError (returncode r))
                  else Inr r))"

subsection \<open>\<^verbatim>\<open>extract_video\<close>\<close>

definition probe_call :: "string \<Rightarrow> run_call" where
  "probe_call input_video =
     \<lparr>args = [FFPROBE_PATH,
              ''-v'', ''error'',
              ''-select_streams'', ''v:0'',
              ''-show_entries'', ''stream=r_frame_rate'',
              ''-of'', ''default=noprint_wrappers=1:nokey=1'',
              input_video],
      check = True, stdout_to = Capture, stderr_to = Capture\<rparr>"

definition decode_call :: "string \<Rightarrow> string \<Rightarrow> int \<Rightarrow> run_call" where
  "decode_call input_video output_folder frame_rate =
     \<lparr>args = [FFMPEG_PATH,
              ''-i'', input_video,
              ''-r'', str_int frame_rate,
              ''-vf'', ''format=gray'',
              path_join output_folder ''frame_%05d.png''],
      check = True, stdout_to = Inherit, stderr_to = Inherit\<rparr>"

definition audio_call :: "string \<Rightarrow> string \<Rightarrow> run_call" where
  "audio_call input_video output_folder =
     \<lparr>args = [FFMPEG_PATH,
              ''-i'', input_video,
              ''-vn'',
              ''-c:a'', ''aac'',
              ''-b:a'', ''192k'',
              ''-y'',
              path_join output_folder ''audio.aac''],
      check = False, stdout_to = DEVNULL, stderr_to = DEVNULL\<rparr>"

text \<open>
  \<^verbatim>\<open>num, den = map(int, result.stdout.strip().split('/'))\<close> and
  \<^verbatim>\<open>round(num / den)\<close>.  A piece that is no integer, and a number of pieces other than
  two, are both \<^verbatim>\<open>ValueError\<close>.
\<close>

definition parse_fraction :: "host \<Rightarrow> string \<Rightarrow> py_exception + int \<times> int" where
  "parse_fraction h out =
     (case map (py_int (int_max_str_digits h)) (str_split CHR ''/'' (str_strip out)) of
        [Some num, Some den] \<Rightarrow> Inr (num, den)
      | _ \<Rightarrow> Inl ValueError)"

definition round_truediv :: "int \<Rightarrow> int \<Rightarrow> py_exception + int" where
  "round_truediv num den =
     (case py_truediv num den of
        Inl e \<Rightarrow> Inl e
      | Inr x \<Rightarrow> Inr (py_round x))"

text \<open>The body of the \<^verbatim>\<open>try\<close>.\<close>

definition probe_frame_rate :: "host \<Rightarrow> string \<Rightarrow> py_exception + int" where
  "probe_frame_rate h input_video =
     (case subprocess_run h (probe_call input_video) of
        Inl e \<Rightarrow> Inl e
      | Inr r \<Rightarrow>
          (case parse_fraction h (stdout r) of
             Inl e \<Rightarrow> Inl e
           | Inr (num, den) \<Rightarrow> round_truediv num den))"

text \<open>\<^verbatim>\<open>except (subprocess.CalledProcessError, FileNotFoundError, ValueError)\<close>.\<close>

fun caught :: "py_exception \<Rightarrow> bool" where
  "caught (CalledProcessError _) = True"
| "caught FileNotFoundError = True"
| "caught ValueError = True"
| "caught _ = False"

record extraction =
  calls :: "run_call list"
  printed :: "message list"
  result :: "py_exception + int"

text \<open>The \<^verbatim>\<open>if frame_rate <= 0\<close> block: the calls made, the text printed, the rate.\<close>

definition detect_frame_rate :: "host \<Rightarrow> string \<Rightarrow> int \<Rightarrow> extraction" where
  "detect_frame_rate h input_video frame_rate =
     (if frame_rate \<le> 0 then
        (case probe_frame_rate h input_video of
           Inr rate \<Rightarrow>
             \<lparr>calls = [probe_call input_video], printed = [], result = Inr rate\<rparr>
         | Inl e \<Rightarrow>
             if caught e then
               \<lparr>calls = [probe_call input_video],
                printed = [Print_exc ''Could not determine FPS automatically, defaulting to 30. Error: '' e],
                result = Inr 30\<rparr>
             else
               \<lparr>calls = [probe_call input_video], printed = [], result = Inl e\<rparr>)
      else \<lparr>calls = [], printed = [], result = Inr frame_rate\<rparr>)"

definition extract_video :: "host \<Rightarrow> string \<Rightarrow> string \<Rightarrow> int \<Rightarrow> extraction" where
  "extract_video h input_video output_folder frame_rate =
     (case makedirs_failure h output_folder of
        Some e \<Rightarrow> \<lparr>calls = [], printed = [], result = Inl e\<rparr>
      | None \<Rightarrow>
          let d = detect_frame_rate h input_video frame_rate
          in case result d of
               Inl e \<Rightarrow> d
             | Inr rate \<Rightarrow>
                 let dc = decode_call input_video output_folder rate;
                     ac = audio_call input_video output_folder
                 in case subprocess_run h dc of
                      Inl e \<Rightarrow> d\<lparr>calls := calls d @ [dc], result := Inl e\<rparr>
                    | Inr _ \<Rightarrow>
                        (case subprocess_run h ac of
                           Inl e \<Rightarrow> d\<lparr>calls := calls d @ [dc, ac], result := Inl e\<rparr>
                         | Inr _ \<Rightarrow> d\<lparr>calls := calls d @ [dc, ac], result := Inr rate\<rparr>))"

section \<open>\<^verbatim>\<open>main.py\<close>\<close>

subsection \<open>Images and the imaging library\<close>

text \<open>
  An image is its size and its pixels (by column \<open>x\<close> and row \<open>y\<close>; only the pixels
  with \<open>x < width\<close> and \<open>y < height\<close> belong to it).  A channel is a byte.  The two
  modes that occur are \<^verbatim>\<open>L\<close> (one channel) and \<^verbatim>\<open>RGB\<close>.
\<close>

type_synonym rgb = "8 word \<times> 8 word \<times> 8 word"

record 'p image =
  width :: nat
  height :: nat
  pixel :: "nat \<Rightarrow> nat \<Rightarrow> 'p"

datatype picture = L "8 word image" | RGB "rgb image"

text \<open>
  What a path holds: an image file, a file whose header can be read (so that it opens
  and has a size) but whose pixel data cannot, or something that is no image.
\<close>

datatype file_content =
    Picture picture
  | Truncated_picture nat nat
  | Not_a_picture

record disk =
  entries :: "string \<Rightarrow> string list"
  content :: "string \<Rightarrow> file_content option"

text \<open>
  What happens when an image is saved to a path: it is written; or the file cannot be
  opened for writing and stays as it is; or writing fails after the file has been
  opened (and so emptied), leaving what had been written so far.
\<close>

datatype save_outcome =
    Saved
  | Save_refused py_exception
  | Save_torn py_exception file_content

text \<open>
  The parts of the imaging library and of the machine that the program does not fix:
  the grey value of a colour (\<^verbatim>\<open>convert('L')\<close>), the resampling filter of
  \<^verbatim>\<open>resize\<close> (the pixel at \<open>x\<close>, \<open>y\<close> of the image resized to \<open>w\<close> by \<open>h\<close>), and
  how saving to each path ends.
\<close>

record imaging =
  rgb_to_l :: "rgb \<Rightarrow> 8 word"
  resample :: "rgb image \<Rightarrow> nat \<Rightarrow> nat \<Rightarrow> nat \<Rightarrow> nat \<Rightarrow> rgb"
  save_outcome :: "string \<Rightarrow> save_outcome"

text \<open>\<^verbatim>\<open>Image.open\<close> identifies the file and reads its header; the pixels are read later.\<close>

definition Image_open :: "disk \<Rightarrow> string \<Rightarrow> py_exception + file_content" where
  "Image_open d path =
     (case content d path of
        None \<Rightarrow> Inl FileNotFoundError
      | Some Not_a_picture \<Rightarrow> Inl UnidentifiedImageError
      | Some c \<Rightarrow> Inr c)"

definition image_size :: "file_content \<Rightarrow> nat \<times> nat" where
  "image_size c =
     (case c of
        Picture (L im) \<Rightarrow> (width im, height im)
      | Picture (RGB im) \<Rightarrow> (width im, height im)
      | Truncated_picture w h \<Rightarrow> (w, h)
      | Not_a_picture \<Rightarrow> (0, 0))"

definition load :: "file_content \<Rightarrow> py_exception + picture" where
  "load c = (case c of Picture p \<Rightarrow> Inr p | _ \<Rightarrow> Inl OSError)"

definition convert_L :: "imaging \<Rightarrow> picture \<Rightarrow> 8 word image" where
  "convert_L lib p =
     (case p of
        L im \<Rightarrow> im
      | RGB im \<Rightarrow> \<lparr>width = width im, height = height im,
                    pixel = (\<lambda>x y. rgb_to_l lib (pixel im x y))\<rparr>)"

definition convert_RGB :: "picture \<Rightarrow> rgb image" where
  "convert_RGB p =
     (case p of
        RGB im \<Rightarrow> im
      | L im \<Rightarrow> \<lparr>width = width im, height = height im,
                  pixel = (\<lambda>x y. (pixel im x y, pixel im x y, pixel im x y))\<rparr>)"

definition resize :: "imaging \<Rightarrow> rgb image \<Rightarrow> nat \<times> nat \<Rightarrow> rgb image" where
  "resize lib im dims = \<lparr>width = fst dims, height = snd dims,
                          pixel = resample lib im (fst dims) (snd dims)\<rparr>"

text \<open>
  Modelled from the spec: the division by 255 of the imaging library's blend, which is
  not part of the repository.  The spec asks for a linear interpolation on bytes; this
  is the usual rounded division of a weighted sum of two bytes (at most \<open>255 * 255\<close>)
  by 255, done with shifts.
\<close>

definition DIV255 :: "nat \<Rightarrow> nat" where
  "DIV255 a = (let tmp = a + 128 in (tmp div 256 + tmp) div 256)"

text \<open>
  Modelled from the spec: the blend of one channel in the imaging library, which is not
  part of the repository: \<open>in1\<close> where the mask is 0, \<open>in2\<close> where it is 255, and the
  linear interpolation of the two in between.
\<close>

definition BLEND8 :: "8 word \<Rightarrow> 8 word \<Rightarrow> 8 word \<Rightarrow> 8 word" where
  "BLEND8 msk in1 in2 = of_nat (DIV255 (unat in1 * (255 - unat msk) + unat in2 * unat msk))"

text \<open>
  Modelled from the spec: the blend of a pixel in the imaging library, which is not part
  of the repository: the three channels are blended alike.
\<close>

definition blend_rgb :: "8 word \<Rightarrow> rgb \<Rightarrow> rgb \<Rightarrow> rgb" where
  "blend_rgb msk out inp =
     (case (out, inp) of
        ((r1, g1, b1), (r2, g2, b2)) \<Rightarrow> (BLEND8 msk r1 r2, BLEND8 msk g1 g2, BLEND8 msk b1 b2))"

text \<open>
  Modelled from the spec: \<^verbatim>\<open>Image.composite(image1, image2, mask)\<close> belongs to the
  imaging library, which is not part of the repository.  The spec has it blend, pixel by
  pixel, the first image over the second with the mask as the weight: the second image's
  pixel where the mask is 0, the first image's where it is 255.  The mask must have the
  size of the first image (else \<^verbatim>\<open>ValueError\<close>); the result has the size of the second.
\<close>

definition Image_composite ::
    "rgb image \<Rightarrow> rgb image \<Rightarrow> 8 word image \<Rightarrow> py_exception + rgb image" where
  "Image_composite image1 image2 msk =
     (if width msk \<noteq> width image1 \<or> height msk \<noteq> height image1 then Inl ValueError
      else Inr \<lparr>width = width image2, height = height image2,
                pixel = (\<lambda>x y. if x < width image1 \<and> y < height image1
                                then blend_rgb (pixel msk x y) (pixel image2 x y) (pixel image1 x y)
                                else pixel image2 x y)\<rparr>)"

text \<open>
  The spec's words for the composite, to compare the arithmetic above with: \<open>c\<close> is the
  linear interpolation between \<open>b\<close> (mask 0) and \<open>w\<close> (mask 255), that is, the byte
  nearest to \<open>(b * (255 - msk) + w * msk) / 255\<close> (within 127/255 of it).
\<close>

definition linear_blend :: "8 word \<Rightarrow> 8 word \<Rightarrow> 8 word \<Rightarrow> 8 word \<Rightarrow> bool" where
  "linear_blend msk b w c =
     (let t = unat b * (255 - unat msk) + unat w * unat msk
      in 255 * unat c \<le> t + 127 \<and> t \<le> 255 * unat c + 127)"

definition linear_blend_rgb :: "8 word \<Rightarrow> rgb \<Rightarrow> rgb \<Rightarrow> rgb \<Rightarrow> bool" where
  "linear_blend_rgb msk pb pw pc =
     (case (pb, pw, pc) of
        ((r1, g1, b1), (r2, g2, b2), (r, g, b)) \<Rightarrow>
          linear_blend msk r1 r2 r \<and> linear_blend msk g1 g2 g \<and> linear_blend msk b1 b2 b)"

text \<open>A save that fails after the file has been opened for writing.\<close>

fun torn :: "save_outcome \<Rightarrow> bool" where
  "torn (Save_torn _ _) = True"
| "torn _ = False"

text \<open>\<^verbatim>\<open>image.save(path)\<close>: what is on the disk afterwards, and the exception if any.\<close>

definition Image_save :: "imaging \<Rightarrow> disk \<Rightarrow> rgb image \<Rightarrow> string \<Rightarrow> disk \<times> py_exception option" where
  "Image_save lib d im path =
     (case save_outcome lib path of
        Saved \<Rightarrow> (d\<lparr>content := (content d)(path \<mapsto> Picture (RGB im))\<rparr>, None)
      | Save_refused e \<Rightarrow> (d, Some e)
      | Save_torn e c \<Rightarrow> (d\<lparr>content := (content d)(path \<mapsto> c)\<rparr>, Some e))"

subsection \<open>Workers\<close>

text \<open>The two module-level variables of a worker process, set by \<^verbatim>\<open>init_worker\<close>.\<close>

record worker =
  worker_black_img :: "rgb image"
  worker_white_img :: "rgb image"

definition init_worker :: "rgb image \<Rightarrow> rgb image \<Rightarrow> worker" where
  "init_worker black_img white_img =
     \<lparr>worker_black_img = black_img, worker_white_img = white_img\<rparr>"

definition process_single_frame ::
    "imaging \<Rightarrow> worker \<Rightarrow> disk \<Rightarrow> string \<Rightarrow> disk \<times> py_exception option" where
  "process_single_frame lib wk d frame_path =
     (case Image_open d frame_path of
        Inl e \<Rightarrow> (d, Some e)
      | Inr f \<Rightarrow>
          (case load f of
             Inl e \<Rightarrow> (d, Some e)
           | Inr p \<Rightarrow>
               (case Image_composite (worker_white_img wk) (worker_black_img wk) (convert_L lib p) of
                  Inl e \<Rightarrow> (d, Some e)
                | Inr composite_img \<Rightarrow> Image_save lib d composite_img frame_path)))"

subsection \<open>\<^verbatim>\<open>process_frames\<close>\<close>

text \<open>
  The names that the extractor's pattern \<^verbatim>\<open>frame_%05d.png\<close> produces: the index in
  decimal, padded with zeros to five characters (longer when it has more digits).
\<close>

definition printf_0d :: "nat \<Rightarrow> nat \<Rightarrow> string" where
  "printf_0d k n = replicate (k - length (str_nat n)) CHR ''0'' @ str_nat n"

definition frame_name :: "nat \<Rightarrow> string" where
  "frame_name n = ''frame_'' @ printf_0d 5 n @ ''.png''"

text \<open>
  \<^verbatim>\<open>glob.glob(os.path.join(frames_folder, 'frame_*.png'))\<close>: the names of the folder
  that begin with \<^verbatim>\<open>frame_\<close> and end with \<^verbatim>\<open>.png\<close>, each joined to the folder, in
  the order in which the folder lists them.
\<close>

definition fnmatch_frame :: "string \<Rightarrow> bool" where
  "fnmatch_frame name =
     (10 \<le> length name \<and> take 6 name = ''frame_'' \<and> drop (length name - 4) name = ''.png'')"

definition glob_frames :: "disk \<Rightarrow> string \<Rightarrow> string list" where
  "glob_frames d frames_folder =
     map (path_join frames_folder) (filter fnmatch_frame (entries d frames_folder))"

text \<open>
  \<^verbatim>\<open>as_completed\<close>: the submitted units in the order in which they finish.  Each number
  of the schedule picks, among the units still running, the one that finishes next;
  when the schedule runs out the rest finish in the order of submission.  The workers
  share nothing but the two overlay images, which they only read, and each unit reads
  and writes the file of its own frame only, so a run of the pool is the run of its units
  one after the other in the order in which they finish.
\<close>

function completion_order :: "nat list \<Rightarrow> 'a list \<Rightarrow> 'a list" where
  "completion_order cs [] = []"
| "completion_order [] (x # xs) = x # xs"
| "completion_order (c # cs) (x # xs) =
     (let i = c mod length (x # xs)
      in (x # xs) ! i # completion_order cs (take i (x # xs) @ drop (Suc i) (x # xs)))"
  by pat_completeness auto
termination
  by (relation "measure (\<lambda>(cs, xs). length xs)") (auto simp: Let_def)

record outcome =
  disk_after :: disk
  shown :: "message list"
  raised :: "py_exception option"

text \<open>The loop over \<^verbatim>\<open>as_completed(futures)\<close> with its \<^verbatim>\<open>try\<close>.\<close>

fun run_units :: "imaging \<Rightarrow> worker \<Rightarrow> string list \<Rightarrow> disk \<Rightarrow> message list \<Rightarrow> disk \<times> message list" where
  "run_units lib wk [] d out = (d, out)"
| "run_units lib wk (frame_path # rest) d out =
     (case process_single_frame lib wk d frame_path of
        (d', None) \<Rightarrow> run_units lib wk rest d' out
      | (d', Some e) \<Rightarrow> run_units lib wk rest d' (out @ [Print_exc ''Error processing a frame: '' e]))"

definition open_overlay :: "disk \<Rightarrow> string \<Rightarrow> py_exception + rgb image" where
  "open_overlay d path =
     (case Image_open d path of
        Inl e \<Rightarrow> Inl e
      | Inr f \<Rightarrow> (case load f of Inl e \<Rightarrow> Inl e | Inr p \<Rightarrow> Inr (convert_RGB p)))"

definition process_frames ::
    "imaging \<Rightarrow> nat list \<Rightarrow> disk \<Rightarrow> string \<Rightarrow> string \<Rightarrow> string \<Rightarrow> outcome" where
  "process_frames lib schedule d frames_folder black_image_path white_image_path =
     (case open_overlay d black_image_path of
        Inl e \<Rightarrow> \<lparr>disk_after = d, shown = [], raised = Some e\<rparr>
      | Inr black_img \<Rightarrow>
     (case open_overlay d white_image_path of
        Inl e \<Rightarrow> \<lparr>disk_after = d, shown = [], raised = Some e\<rparr>
      | Inr white_img \<Rightarrow>
     (let frame_files = sort (glob_frames d frames_folder)
      in case frame_files of
           [] \<Rightarrow> \<lparr>disk_after = d, shown = [Print ''No frames found to process.''], raised = None\<rparr>
         | first # _ \<Rightarrow>
     (case Image_open d first of
        Inl e \<Rightarrow> \<lparr>disk_after = d, shown = [], raised = Some e\<rparr>
      | Inr first_frame \<Rightarrow>
          let wk = init_worker (resize lib black_img (image_size first_frame))
                               (resize lib white_img (image_size first_frame));
              (d', out) = run_units lib wk (completion_order schedule frame_files) d
                            [Print ''Processing frames...'']
          in \<lparr>disk_after = d', shown = out, raised = None\<rparr>))))"

section \<open>Examples\<close>

text \<open>A host on which everything starts and exits with status zero, the probe printing \<open>out\<close>.\<close>

definition quiet_host :: "string \<Rightarrow> host" where
  "quiet_host out =
     \<lparr>int_max_str_digits = 4300,
      makedirs_failure = (\<lambda>_. None),
      launch_failure = (\<lambda>_. None),
      child_result = (\<lambda>_. \<lparr>returncode = 0, stdout = out\<rparr>)\<rparr>"

text \<open>A source without an audio stream: the audio command (the one with \<^verbatim>\<open>-vn\<close>) fails.\<close>

definition silent_source_host :: "string \<Rightarrow> host" where
  "silent_source_host out =
     \<lparr>int_max_str_digits = 4300,
      makedirs_failure = (\<lambda>_. None),
      launch_failure = (\<lambda>_. None),
      child_result = (\<lambda>argv. if ''-vn'' \<in> set argv then \<lparr>returncode = 1, stdout = ''''\<rparr>
                              else \<lparr>returncode = 0, stdout = out\<rparr>)\<rparr>"

text \<open>A host on which the probe program is there but may not be executed.\<close>

definition locked_probe_host :: host where
  "locked_probe_host =
     \<lparr>int_max_str_digits = 4300,
      makedirs_failure = (\<lambda>_. None),
      launch_failure = (\<lambda>p. if p = FFPROBE_PATH then Some PermissionError else None),
      child_result = (\<lambda>_. \<lparr>returncode = 0, stdout = ''''\<rparr>)\<rparr>"

text \<open>
  A disk with two overlay images of one pixel, and a folder \<^verbatim>\<open>tmp\<close> that holds an
  audio file, a frame of three pixels (black, white, mid grey) and a second frame whose
  pixel data cannot be read; a disk that holds nothing; an imaging library whose saves
  all end in the given way; a worker with two overlays of the size of the frame.
\<close>

definition flat_image :: "nat \<Rightarrow> nat \<Rightarrow> 'p \<Rightarrow> 'p image" where
  "flat_image w h c = \<lparr>width = w, height = h, pixel = (\<lambda>_ _. c)\<rparr>"

definition example_mask :: "8 word image" where
  "example_mask = \<lparr>width = 3, height = 1,
                    pixel = (\<lambda>x y. if x = 0 then 0 else if x = 1 then 255 else 128)\<rparr>"

definition example_imaging :: "save_outcome \<Rightarrow> imaging" where
  "example_imaging s =
     \<lparr>rgb_to_l = (\<lambda>(r, g, b). g),
      resample = (\<lambda>im w h x y. pixel im 0 0),
      save_outcome = (\<lambda>_. s)\<rparr>"

definition example_disk :: disk where
  "example_disk =
     \<lparr>entries = (\<lambda>dir. if dir = ''tmp''
                        then [''frame_00002.png'', ''audio.aac'', ''frame_00001.png'']
                        else []),
      content = [''black.png'' \<mapsto> Picture (RGB (flat_image 1 1 (0, 0, 0))),
                 ''white.png'' \<mapsto> Picture (RGB (flat_image 1 1 (255, 255, 255))),
                 ''tmp/frame_00001.png'' \<mapsto> Picture (L example_mask),
                 ''tmp/frame_00002.png'' \<mapsto> Truncated_picture 3 1]\<rparr>"

definition bare_disk :: disk where
  "bare_disk = \<lparr>entries = (\<lambda>_. []), content = Map.empty\<rparr>"

definition example_worker :: worker where
  "example_worker = init_worker (flat_image 3 1 (10, 20, 30)) (flat_image 3 1 (200, 100, 50))"

section \<open>Properties of \<^verbatim>\<open>extract_video\<close>\<close>

lemma program_paths [simp]:
  "FFMPEG_PATH = ''ffmpeg/bin/ffmpeg.exe''" "FFPROBE_PATH = ''ffmpeg/bin/ffprobe.exe''"
  by (simp_all add: FFMPEG_PATH_def FFPROBE_PATH_def path_join_def)

text \<open>
  Once one command of a program has run, a later command of the same program starts
  too; without \<^verbatim>\<open>check\<close> it returns whatever the exit status.
\<close>

lemma subprocess_run_same_program:
  assumes "subprocess_run h c = Inr r" "args c = p # xs" "args c' = p # ys" "\<not> check c'"
  shows "subprocess_run h c' = Inr (child_result h (args c'))"
  using assms by (auto simp: subprocess_run_def Let_def split: option.splits if_splits)

lemma audio_after_decode:
  assumes "subprocess_run h (decode_call input_video output_folder rate) = Inr r"
  shows "subprocess_run h (audio_call input_video output_folder)
           = Inr (child_result h (args (audio_call input_video output_folder)))"
  using assms by (rule subprocess_run_same_program) (simp_all add: decode_call_def audio_call_def)

text \<open>
  Claim C10.  When the requested rate is positive, \<^verbatim>\<open>extract_video\<close> runs no probe
  (every command it runs is a command of the decoder program, and none is the probe
  command), a rate it returns is the requested rate, and it does return that rate as
  soon as the output directory can be made and the decode command succeeds.
\<close>

theorem extract_video_requested_rate:
  assumes "0 < frame_rate"
  shows "(\<forall>c \<in> set (calls (extract_video h input_video output_folder frame_rate)).
            hd (args c) = FFMPEG_PATH \<and> c \<noteq> probe_call input_video)
       \<and> (\<forall>r. result (extract_video h input_video output_folder frame_rate) = Inr r
              \<longrightarrow> r = frame_rate)
       \<and> (makedirs_failure h output_folder = None
            \<and> (\<exists>r. subprocess_run h (decode_call input_video output_folder frame_rate) = Inr r)
          \<longrightarrow> result (extract_video h input_video output_folder frame_rate) = Inr frame_rate)"
proof -
  let ?dc = "decode_call input_video output_folder frame_rate"
  let ?ac = "audio_call input_video output_folder"
  have d: "detect_frame_rate h input_video frame_rate
             = \<lparr>calls = [], printed = [], result = Inr frame_rate\<rparr>"
    using assms by (simp add: detect_frame_rate_def)
  have heads: "hd (args ?dc) = FFMPEG_PATH" "hd (args ?ac) = FFMPEG_PATH"
    "?dc \<noteq> probe_call input_video" "?ac \<noteq> probe_call input_video"
    by (simp_all add: decode_call_def audio_call_def probe_call_def)
  show ?thesis
    using heads audio_after_decode [of h input_video output_folder frame_rate]
    by (auto simp: extract_video_def d Let_def split: option.splits sum.splits)
qed

theorem extract_video_requested_rate_witness:
  "(0::int) < 25
   \<and> calls (extract_video (quiet_host '''') ''in.mp4'' ''tmp'' 25)
       = [decode_call ''in.mp4'' ''tmp'' 25, audio_call ''in.mp4'' ''tmp'']
   \<and> result (extract_video (quiet_host '''') ''in.mp4'' ''tmp'' 25) = Inr 25"
  using extract_video_requested_rate [of 25 "quiet_host ''''" "''in.mp4''" "''tmp''"]
  by (simp add: extract_video_def detect_frame_rate_def subprocess_run_def quiet_host_def
      decode_call_def audio_call_def Let_def)

subsection \<open>Rounding a quotient of integers\<close>

lemma round_half_even_nearest:
  assumes "0 < b"
  shows "(2 * int (round_half_even a b) - 1) * int b \<le> 2 * int a"
    and "2 * int a \<le> (2 * int (round_half_even a b) + 1) * int b"
proof -
  define q r where "q = a div b" and "r = a mod b"
  have a: "int a = int q * int b + int r"
    unfolding q_def r_def by (metis div_mult_mod_eq of_nat_add of_nat_mult)
  have r: "int r < int b" using assms by (simp add: r_def)
  have rhe: "round_half_even a b = (if 2 * r < b then q else if b < 2 * r then q + 1
               else if even q then q else q + 1)"
    by (simp add: round_half_even_def q_def r_def Let_def)
  show "(2 * int (round_half_even a b) - 1) * int b \<le> 2 * int a"
    using r by (auto simp: rhe a algebra_simps)
  show "2 * int a \<le> (2 * int (round_half_even a b) + 1) * int b"
    using r by (auto simp: rhe a algebra_simps)
qed

lemma round_half_even_ge_div: "a div b \<le> round_half_even a b"
  by (simp add: round_half_even_def Let_def)

lemma round_half_even_lower:
  assumes "c * b \<le> a" "0 < b"
  shows "c \<le> round_half_even a b"
proof -
  have "c \<le> a div b" using assms by (simp add: less_eq_div_iff_mult_less_eq)
  then show ?thesis using round_half_even_ge_div [of a b] by linarith
qed

lemma bit_length_bounds:
  "0 < n \<Longrightarrow> 2 ^ bit_length n \<le> 2 * n \<and> n < 2 ^ bit_length n"
proof (induction n rule: bit_length.induct)
  case (1 n)
  show ?case
  proof (cases "n div 2 = 0")
    case True
    with "1.prems" have "n = 1" by (simp add: div_eq_0_iff)
    then show ?thesis
      by (simp add: bit_length.simps [of "Suc 0"] bit_length.simps [of 0])
  next
    case False
    with "1.IH" "1.prems"
    have ih: "2 ^ bit_length (n div 2) \<le> 2 * (n div 2)" "n div 2 < 2 ^ bit_length (n div 2)"
      by simp_all
    have bl: "bit_length n = Suc (bit_length (n div 2))"
      using "1.prems" by (simp add: bit_length.simps [of n])
    show ?thesis using ih unfolding bl by (simp; linarith)
  qed
qed

lemma floor_log2_cases:
  fixes n d :: nat
  defines "k \<equiv> int (bit_length n) - int (bit_length d)"
  shows "(floor_log2 n d = k \<and> (if 0 \<le> k then d * 2 ^ nat k \<le> n else d \<le> n * 2 ^ nat (- k)))
       \<or> (floor_log2 n d = k - 1 \<and> \<not> (if 0 \<le> k then d * 2 ^ nat k \<le> n else d \<le> n * 2 ^ nat (- k)))"
  unfolding floor_log2_def Let_def k_def by presburger

lemma floor_log2_lower:
  assumes "0 < n" "0 < d" "0 \<le> floor_log2 n d"
  shows "d * 2 ^ nat (floor_log2 n d) \<le> n"
proof -
  define k where "k = int (bit_length n) - int (bit_length d)"
  from floor_log2_cases [of n d, folded k_def]
  consider (a) "floor_log2 n d = k" "if 0 \<le> k then d * 2 ^ nat k \<le> n else d \<le> n * 2 ^ nat (- k)"
    | (b) "floor_log2 n d = k - 1"
    by blast
  then show ?thesis
  proof cases
    case a
    with assms(3) show ?thesis by (simp split: if_splits)
  next
    case b
    with assms have k: "1 \<le> k" by simp
    have bd: "d < 2 ^ bit_length d" using bit_length_bounds [OF assms(2)] by simp
    have bn: "2 ^ bit_length n \<le> 2 * n" using bit_length_bounds [OF assms(1)] by simp
    have "bit_length n = bit_length d + nat (k - 1) + 1" using k by (simp add: k_def)
    then have "2 * (2 ^ bit_length d * 2 ^ nat (k - 1)) = (2::nat) ^ bit_length n"
      by (simp add: power_add)
    moreover have "d * 2 ^ nat (k - 1) \<le> 2 ^ bit_length d * 2 ^ nat (k - 1)"
      using bd by simp
    ultimately have "2 * (d * 2 ^ nat (k - 1)) \<le> 2 * n" using bn by linarith
    then show ?thesis by (simp add: b)
  qed
qed

lemma floor_log2_nonneg:
  assumes "0 < d" "d \<le> n"
  shows "0 \<le> floor_log2 n d"
proof -
  have n: "0 < n" using assms by simp
  define k where "k = int (bit_length n) - int (bit_length d)"
  have "2 ^ bit_length d \<le> 2 * d" using bit_length_bounds [OF assms(1)] by simp
  also have "\<dots> \<le> 2 * n" using assms by simp
  also have "\<dots> < 2 * 2 ^ bit_length n" using bit_length_bounds [OF n] by simp
  finally have "(2::nat) ^ bit_length d < 2 ^ Suc (bit_length n)" by simp
  then have "bit_length d < Suc (bit_length n)" by (simp only: power_strict_increasing_iff) 
  then have k: "0 \<le> k" by (simp add: k_def)
  from floor_log2_cases [of n d, folded k_def]
  consider (a) "floor_log2 n d = k"
    | (b) "floor_log2 n d = k - 1"
        "\<not> (if 0 \<le> k then d * 2 ^ nat k \<le> n else d \<le> n * 2 ^ nat (- k))"
    by blast
  then show ?thesis
  proof cases
    case a
    with k show ?thesis by simp
  next
    case b
    have "k \<noteq> 0" using b(2) assms by auto
    with k b(1) show ?thesis by simp
  qed
qed

lemma truediv_magnitude_small:
  assumes "0 < n" "0 < d" "n < 2 ^ 52" "d < 2 ^ 52"
  obtains m k where "truediv_magnitude n d = Some (m, - int k)" "0 < k" "d < 2 ^ k"
    "m = round_half_even (n * 2 ^ k) d"
proof -
  define e where "e = floor_log2 n d"
  define p where "p = max (e - 52) (- 1074)"
  have e52: "e < 52"
  proof (rule ccontr)
    assume "\<not> e < 52"
    then have e: "52 \<le> e" by simp
    then have "d * 2 ^ nat e \<le> n"
      using floor_log2_lower [OF assms(1,2)] by (simp add: e_def)
    moreover have "(2::nat) ^ 52 \<le> 2 ^ nat e" using e by (intro power_increasing) simp_all
    moreover have "1 * 2 ^ nat e \<le> d * 2 ^ nat e" using assms(2) by (intro mult_le_mono1) simp
    ultimately show False using assms(3) by simp
  qed
  then have p: "p < 0" by (simp add: p_def)
  define k where "k = nat (- p)"
  have k: "0 < k" "p = - int k" using p by (simp_all add: k_def)
  have dk: "d < 2 ^ k"
  proof (cases "0 \<le> e")
    case True
    then have le: "d * 2 ^ nat e \<le> n"
      using floor_log2_lower [OF assms(1,2)] by (simp add: e_def)
    have "k = 52 - nat e" using True e52 by (simp add: k_def p_def)
    then have "(2::nat) ^ 52 = 2 ^ k * 2 ^ nat e" using True e52
      by (simp add: power_add [symmetric])
    then have "d * 2 ^ nat e < 2 ^ k * 2 ^ nat e" using le assms(3) by simp
    then show ?thesis by simp
  next
    case False
    then have "52 \<le> k" by (simp add: k_def p_def)
    then have "(2::nat) ^ 52 \<le> 2 ^ k" by (intro power_increasing) simp_all
    then show ?thesis using assms(4) by simp
  qed
  have "truediv_magnitude n d = Some (round_half_even (n * 2 ^ nat (- p)) d, p)"
    unfolding truediv_magnitude_def Let_def e_def [symmetric] p_def [symmetric]
    using assms(1) p by simp
  then have "truediv_magnitude n d = Some (round_half_even (n * 2 ^ k) d, - int k)"
    by (simp add: k(2))
  then show ?thesis using k(1) dk that by blast
qed

lemma double_rounding_nearest:
  fixes n d k :: nat
  assumes "0 < d" "d < 2 ^ k"
  defines "m \<equiv> round_half_even (n * 2 ^ k) d"
  defines "r \<equiv> int (round_half_even m (2 ^ k))"
  shows "(2 * r - 1) * int d \<le> 2 * int n" and "2 * int n \<le> (2 * r + 1) * int d"
proof -
  define K where "K = (2::int) ^ k"
  have K: "int d < K" "0 < K" using assms(2) unfolding K_def
    by (metis of_nat_less_iff of_nat_numeral of_nat_power) simp
  have m1: "(2 * int m - 1) * int d \<le> 2 * (int n * K)"
    and m2: "2 * (int n * K) \<le> (2 * int m + 1) * int d"
    using round_half_even_nearest [OF assms(1), of "n * 2 ^ k"] by (simp_all add: m_def K_def)
  have r1: "(2 * r - 1) * K \<le> 2 * int m" and r2: "2 * int m \<le> (2 * r + 1) * K"
    using round_half_even_nearest [of "2 ^ k" m] by (simp_all add: r_def K_def)
  have d0: "0 \<le> int d" by simp
  have "((2 * r - 1) * int d - 1) * K < (2 * r - 1) * K * int d - int d"
    using K by (simp add: algebra_simps)
  also have "\<dots> \<le> 2 * int m * int d - int d"
    using mult_right_mono [OF r1 d0] by simp
  also have "\<dots> \<le> 2 * int n * K" using m1 by (simp add: algebra_simps)
  finally have "((2 * r - 1) * int d - 1) * K < (2 * int n) * K" by simp
  then have "(2 * r - 1) * int d - 1 < 2 * int n" using K(2) by (simp only: mult_less_cancel_right_pos)
  then show "(2 * r - 1) * int d \<le> 2 * int n" by simp
  have "(2 * int n) * K \<le> 2 * int m * int d + int d" using m2 by (simp add: algebra_simps)
  also have "\<dots> \<le> (2 * r + 1) * K * int d + int d"
    using mult_right_mono [OF r2 d0] by simp
  also have "\<dots> < ((2 * r + 1) * int d + 1) * K" using K by (simp add: algebra_simps)
  finally have "2 * int n < (2 * r + 1) * int d + 1" using K(2) by (simp only: mult_less_cancel_right_pos)
  then show "2 * int n \<le> (2 * r + 1) * int d" by simp
qed

lemma round_truediv_nearest:
  assumes "den \<noteq> 0" "\<bar>num\<bar> < 2 ^ 52" "\<bar>den\<bar> < 2 ^ 52"
  obtains rate where "round_truediv num den = Inr rate" "2 * \<bar>rate * den - num\<bar> \<le> \<bar>den\<bar>"
proof (cases "num = 0")
  case True
  then have "round_truediv num den = Inr 0"
    using assms(1) by (simp add: round_truediv_def py_truediv_def truediv_magnitude_def py_round_def)
  then show ?thesis using that [of 0] True by simp
next
  case False
  define n d where "n = nat \<bar>num\<bar>" and "d = nat \<bar>den\<bar>"
  have nd: "0 < n" "0 < d" "n < 2 ^ 52" "d < 2 ^ 52"
    using False assms by (simp_all add: n_def d_def nat_less_iff)
  from truediv_magnitude_small [OF nd] obtain m k where
    mk: "truediv_magnitude n d = Some (m, - int k)" "0 < k" "d < 2 ^ k"
      "m = round_half_even (n * 2 ^ k) d"
    by blast
  define r where "r = int (round_half_even m (2 ^ k))"
  have near: "(2 * r - 1) * int d \<le> 2 * int n" "2 * int n \<le> (2 * r + 1) * int d"
    using double_rounding_nearest [OF nd(2) mk(3), of n] by (simp_all add: r_def mk(4))
  define rate where "rate = (if (num < 0) \<noteq> (den < 0) then - r else r)"
  have res: "round_truediv num den = Inr rate"
    using assms(1) mk(1,2)
    by (simp add: round_truediv_def py_truediv_def n_def [symmetric] d_def [symmetric]
        py_round_def rate_def r_def)
  have abs: "int n = \<bar>num\<bar>" "int d = \<bar>den\<bar>" by (simp_all add: n_def d_def)
  define X where "X = r * \<bar>den\<bar>"
  have "2 * X - \<bar>den\<bar> \<le> 2 * \<bar>num\<bar>" "2 * \<bar>num\<bar> \<le> 2 * X + \<bar>den\<bar>"
    using near unfolding abs by (simp_all add: X_def algebra_simps)
  then have "2 * (X - \<bar>num\<bar>) \<le> \<bar>den\<bar>" "2 * (\<bar>num\<bar> - X) \<le> \<bar>den\<bar>"
    by simp_all
  then have "2 * \<bar>X - \<bar>num\<bar>\<bar> \<le> \<bar>den\<bar>"
    by (cases "\<bar>num\<bar> \<le> X") simp_all
  then have "2 * \<bar>r * \<bar>den\<bar> - \<bar>num\<bar>\<bar> \<le> \<bar>den\<bar>"
    by (simp add: X_def)
  moreover have "\<bar>rate * den - num\<bar> = \<bar>r * \<bar>den\<bar> - \<bar>num\<bar>\<bar>"
    by (auto simp: rate_def abs_if algebra_simps)
  ultimately show ?thesis using that [OF res] by simp
qed

lemma round_truediv_at_least_one:
  assumes "0 < den" "den \<le> num" "round_truediv num den = Inr rate"
  shows "1 \<le> rate"
proof -
  define n d where "n = nat num" and "d = nat den"
  have nd: "0 < d" "d \<le> n" "0 < n" using assms(1,2) by (simp_all add: n_def d_def)
  define e where "e = floor_log2 n d"
  define p where "p = max (e - 52) (- 1074)"
  have e: "0 \<le> e" using floor_log2_nonneg [OF nd(1,2)] by (simp add: e_def)
  have le: "d * 2 ^ nat e \<le> n" using floor_log2_lower [OF nd(3,1)] e by (simp add: e_def)
  have p: "p = e - 52" using e by (simp add: p_def)
  define m where "m = (if 0 \<le> p then round_half_even n (d * 2 ^ nat p)
                       else round_half_even (n * 2 ^ nat (- p)) d)"
  have tm: "truediv_magnitude n d = (if 971 < p \<or> (p = 971 \<and> 2 ^ 53 \<le> m) then None else Some (m, p))"
    unfolding truediv_magnitude_def Let_def e_def [symmetric] p_def [symmetric] m_def [symmetric]
    using nd(3) by simp
  have abs: "nat \<bar>num\<bar> = n" "nat \<bar>den\<bar> = d" "\<not> num < 0" "\<not> den < 0" "den \<noteq> 0"
    using assms(1,2) by (simp_all add: n_def d_def)
  define R where "R = (if 0 \<le> p then m * 2 ^ nat p else round_half_even m (2 ^ nat (- p)))"
  have rate: "rate = int R"
    unfolding R_def
    using assms(3) abs(3,4) unfolding round_truediv_def py_truediv_def abs(1,2) tm
    by (simp add: py_round_def Let_def split: if_splits)
  have "1 \<le> R"
  proof (cases "0 \<le> p")
    case True
    have "(2::nat) ^ nat p \<le> 2 ^ nat e" using True p by (intro power_increasing) simp_all
    then have "d * 2 ^ nat p \<le> d * 2 ^ nat e" by (rule mult_le_mono2)
    with le have "1 * (d * 2 ^ nat p) \<le> n" by linarith
    then have "1 \<le> m" using True nd(1) unfolding m_def
      by (simp only: if_True) (rule round_half_even_lower, simp_all)
    then have "1 * 1 \<le> m * 2 ^ nat p" by (intro mult_le_mono) simp_all
    then show ?thesis using True by (simp add: R_def)
  next
    case False
    define k where "k = nat (- p)"
    have "2 ^ k * d \<le> n * 2 ^ k" using nd(2) by (simp add: mult.commute)
    then have "2 ^ k \<le> m" using False nd(1) unfolding m_def k_def
      by (simp only: if_False) (rule round_half_even_lower, simp_all)
    then have "1 \<le> round_half_even m (2 ^ k)"
      by (intro round_half_even_lower) simp_all
    then show ?thesis using False by (simp add: R_def k_def)
  qed
  then show ?thesis by (simp add: rate)
qed

subsection \<open>The rate that is detected, used and returned\<close>

lemmas parse_defs = parse_fraction_def py_int_def str_strip_def py_isspace_def parse_literal_def
  is_digit_def digit_val_def

lemmas truediv_defs = round_truediv_def py_truediv_def truediv_magnitude_def floor_log2_def
  bit_length.simps round_half_even_def py_round_def Let_def

lemmas extract_defs = extract_video_def detect_frame_rate_def probe_frame_rate_def
  subprocess_run_def probe_call_def decode_call_def audio_call_def

lemma round_truediv_not_caught: "round_truediv num den = Inl e \<Longrightarrow> \<not> caught e"
  by (auto simp: round_truediv_def py_truediv_def split: if_splits option.splits sum.splits)

lemma extract_video_after_detect:
  assumes "makedirs_failure h output_folder = None"
    and "result (detect_frame_rate h input_video frame_rate) = Inr rate"
  shows "result (extract_video h input_video output_folder frame_rate)
           = (case subprocess_run h (decode_call input_video output_folder rate) of
                Inl e \<Rightarrow> Inl e
              | Inr _ \<Rightarrow> Inr rate)"
  using assms audio_after_decode [of h input_video output_folder rate]
  by (auto simp: extract_video_def Let_def split: sum.splits)

lemma extract_video_detect_raises:
  assumes "makedirs_failure h output_folder = None"
    and "result (detect_frame_rate h input_video frame_rate) = Inl e"
  shows "result (extract_video h input_video output_folder frame_rate) = Inl e"
  using assms by (simp add: extract_video_def Let_def)

lemma extract_video_returns:
  assumes "result (extract_video h input_video output_folder frame_rate) = Inr rate"
  shows "makedirs_failure h output_folder = None"
    and "result (detect_frame_rate h input_video frame_rate) = Inr rate"
    and "\<exists>r. subprocess_run h (decode_call input_video output_folder rate) = Inr r"
    and "calls (extract_video h input_video output_folder frame_rate)
           = calls (detect_frame_rate h input_video frame_rate)
             @ [decode_call input_video output_folder rate, audio_call input_video output_folder]"
  using assms by (auto simp: extract_video_def Let_def split: option.splits sum.splits)

lemma detect_frame_rate_probed:
  assumes "frame_rate \<le> 0"
    and "subprocess_run h (probe_call input_video) = Inr r"
    and "parse_fraction h (stdout r) = Inr (num, den)"
  shows "result (detect_frame_rate h input_video frame_rate) = round_truediv num den"
  using assms round_truediv_not_caught [of num den]
  by (auto simp: detect_frame_rate_def probe_frame_rate_def split: sum.splits)

text \<open>
  Claim C2.  With a requested rate of zero or less, a probe that succeeds and an output
  that reads as two integers \<open>num/den\<close>, the rate is \<^verbatim>\<open>round(num / den)\<close>:
  \<^verbatim>\<open>extract_video\<close> returns it once the decode command has succeeded, and raises what
  the division raises when it raises.  For a denominator other than zero and both numbers
  below \<open>2 ^ 52\<close> in magnitude, that value exists and is an integer nearest to the exact
  quotient: it differs from \<open>num / den\<close> by at most one half.
\<close>

theorem extract_video_detected_rate:
  assumes "frame_rate \<le> 0"
    and "makedirs_failure h output_folder = None"
    and "subprocess_run h (probe_call input_video) = Inr r"
    and "parse_fraction h (stdout r) = Inr (num, den)"
  shows "result (extract_video h input_video output_folder frame_rate)
           = (case round_truediv num den of
                Inl e \<Rightarrow> Inl e
              | Inr rate \<Rightarrow>
                  (case subprocess_run h (decode_call input_video output_folder rate) of
                     Inl e \<Rightarrow> Inl e
                   | Inr _ \<Rightarrow> Inr rate))
       \<and> (den \<noteq> 0 \<and> \<bar>num\<bar> < 2 ^ 52 \<and> \<bar>den\<bar> < 2 ^ 52
            \<longrightarrow> (\<exists>rate. round_truediv num den = Inr rate \<and> 2 * \<bar>rate * den - num\<bar> \<le> \<bar>den\<bar>))"
proof (intro conjI impI)
  have d: "result (detect_frame_rate h input_video frame_rate) = round_truediv num den"
    using assms(1,3,4) by (rule detect_frame_rate_probed)
  show "result (extract_video h input_video output_folder frame_rate)
           = (case round_truediv num den of
                Inl e \<Rightarrow> Inl e
              | Inr rate \<Rightarrow>
                  (case subprocess_run h (decode_call input_video output_folder rate) of
                     Inl e \<Rightarrow> Inl e
                   | Inr _ \<Rightarrow> Inr rate))"
  proof (cases "round_truediv num den")
    case (Inl e)
    with d extract_video_detect_raises [OF assms(2), of input_video frame_rate e]
    show ?thesis by simp
  next
    case (Inr rate)
    with d extract_video_after_detect [OF assms(2), of input_video frame_rate rate]
    show ?thesis by simp
  qed
next
  assume "den \<noteq> 0 \<and> \<bar>num\<bar> < 2 ^ 52 \<and> \<bar>den\<bar> < 2 ^ 52"
  then show "\<exists>rate. round_truediv num den = Inr rate \<and> 2 * \<bar>rate * den - num\<bar> \<le> \<bar>den\<bar>"
    using round_truediv_nearest [of den num] by blast
qed

lemma probe_24000_1001:
  "subprocess_run (quiet_host (''24000/1001'' @ [CHR 0x0A])) (probe_call ''in.mp4'')
     = Inr \<lparr>returncode = 0, stdout = ''24000/1001'' @ [CHR 0x0A]\<rparr>"
  by (simp add: subprocess_run_def quiet_host_def probe_call_def)

lemma parse_24000_1001:
  "parse_fraction (quiet_host (''24000/1001'' @ [CHR 0x0A]))
       (stdout \<lparr>returncode = 0, stdout = ''24000/1001'' @ [CHR 0x0A]\<rparr>)
     = Inr (24000, 1001)"
  by (simp add: parse_defs quiet_host_def)

lemma round_24000_1001: "round_truediv 24000 1001 = Inr 24"
  by (simp add: truediv_defs)

text \<open>The probe prints \<^verbatim>\<open>24000/1001\<close> and a line feed: the rate returned is 24.\<close>

theorem extract_video_detected_rate_witness:
  "(0::int) \<le> 0
   \<and> result (extract_video (quiet_host (''24000/1001'' @ [CHR 0x0A])) ''in.mp4'' ''tmp'' 0) = Inr 24
   \<and> 2 * \<bar>24 * 1001 - 24000\<bar> \<le> \<bar>1001 :: int\<bar>"
proof -
  have m: "makedirs_failure (quiet_host (''24000/1001'' @ [CHR 0x0A])) ''tmp'' = None"
    by (simp add: quiet_host_def)
  have d: "subprocess_run (quiet_host (''24000/1001'' @ [CHR 0x0A])) (decode_call ''in.mp4'' ''tmp'' 24)
             = Inr \<lparr>returncode = 0, stdout = ''24000/1001'' @ [CHR 0x0A]\<rparr>"
    by (simp add: subprocess_run_def quiet_host_def decode_call_def)
  have "result (extract_video (quiet_host (''24000/1001'' @ [CHR 0x0A])) ''in.mp4'' ''tmp'' 0) = Inr 24"
    using extract_video_detected_rate [OF order_refl m probe_24000_1001 parse_24000_1001]
    by (simp only: round_24000_1001 d sum.case)
  then show ?thesis by simp
qed

text \<open>
  Claim C4.  A probe that prints \<^verbatim>\<open>0/0\<close> makes \<^verbatim>\<open>num / den\<close> raise
  \<^verbatim>\<open>ZeroDivisionError\<close>, which the \<^verbatim>\<open>except\<close> clause does not name:
  \<^verbatim>\<open>extract_video\<close> raises it instead of continuing with the rate 30.
\<close>

theorem extract_video_zero_denominator_raises:
  "result (extract_video (quiet_host (''0/0'' @ [CHR 0x0A])) ''in.mp4'' ''tmp'' 0)
     = Inl ZeroDivisionError"
  by (simp add: extract_defs parse_defs quiet_host_def round_truediv_def py_truediv_def)

text \<open>
  The same clause lets through the \<^verbatim>\<open>PermissionError\<close> of a probe program that may not
  be executed.
\<close>

lemma extract_video_locked_probe_raises:
  "result (extract_video locked_probe_host ''in.mp4'' ''tmp'' 0) = Inl PermissionError"
  by (simp add: extract_defs locked_probe_host_def)

text \<open>
  Claim C5, as stated, fails: a probe that prints \<^verbatim>\<open>1/3\<close> gives the rate 0, which is
  passed to the decoder as \<^verbatim>\<open>-r 0\<close> and returned.
\<close>

theorem extract_video_rate_zero:
  "result (extract_video (quiet_host ''1/3'') ''in.mp4'' ''tmp'' 0) = Inr 0
   \<and> calls (extract_video (quiet_host ''1/3'') ''in.mp4'' ''tmp'' 0)
       = [probe_call ''in.mp4'', decode_call ''in.mp4'' ''tmp'' 0, audio_call ''in.mp4'' ''tmp'']
   \<and> args (decode_call ''in.mp4'' ''tmp'' 0)
       = [''ffmpeg/bin/ffmpeg.exe'', ''-i'', ''in.mp4'', ''-r'', ''0'', ''-vf'', ''format=gray'',
          ''tmp/frame_%05d.png'']
   \<and> \<not> (0::int) < 0"
  by (simp add: extract_defs parse_defs quiet_host_def truediv_defs str_int_def str_nat.simps
      path_join_def)

lemma detect_frame_rate_cases:
  assumes "result (detect_frame_rate h input_video frame_rate) = Inr rate"
  shows "(0 < frame_rate \<and> rate = frame_rate)
       \<or> (frame_rate \<le> 0 \<and> rate = 30)
       \<or> (frame_rate \<le> 0 \<and> (\<exists>r num den. subprocess_run h (probe_call input_video) = Inr r
             \<and> parse_fraction h (stdout r) = Inr (num, den)
             \<and> round_truediv num den = Inr rate))"
  using assms
  by (auto simp: detect_frame_rate_def probe_frame_rate_def split: if_splits sum.splits prod.splits)

text \<open>
  Claim C5, amended.  The rate that \<^verbatim>\<open>extract_video\<close> returns is the rate of the decode
  command it ran.  It is the requested rate, hence positive, when that is positive;
  otherwise it is 30 or \<^verbatim>\<open>round(num / den)\<close> of the probed fraction, which is positive
  when \<open>0 < den \<le> num\<close>.
\<close>

theorem extract_video_rate_sign:
  assumes "result (extract_video h input_video output_folder frame_rate) = Inr rate"
  shows "decode_call input_video output_folder rate
           \<in> set (calls (extract_video h input_video output_folder frame_rate))
       \<and> (0 < frame_rate \<longrightarrow> rate = frame_rate \<and> 0 < rate)
       \<and> (frame_rate \<le> 0 \<longrightarrow> rate = 30
            \<or> (\<exists>r num den. subprocess_run h (probe_call input_video) = Inr r
                  \<and> parse_fraction h (stdout r) = Inr (num, den)
                  \<and> round_truediv num den = Inr rate
                  \<and> (0 < den \<and> den \<le> num \<longrightarrow> 0 < rate)))"
proof -
  note r = extract_video_returns [OF assms]
  have "decode_call input_video output_folder rate
           \<in> set (calls (extract_video h input_video output_folder frame_rate))"
    by (simp add: r(4))
  moreover have "0 < frame_rate \<longrightarrow> rate = frame_rate \<and> 0 < rate"
    using detect_frame_rate_cases [OF r(2)] by auto
  moreover have "frame_rate \<le> 0 \<longrightarrow> rate = 30
            \<or> (\<exists>r num den. subprocess_run h (probe_call input_video) = Inr r
                  \<and> parse_fraction h (stdout r) = Inr (num, den)
                  \<and> round_truediv num den = Inr rate
                  \<and> (0 < den \<and> den \<le> num \<longrightarrow> 0 < rate))"
  proof
    assume "frame_rate \<le> 0"
    with detect_frame_rate_cases [OF r(2)]
    consider "rate = 30"
      | r' num den where "subprocess_run h (probe_call input_video) = Inr r'"
          "parse_fraction h (stdout r') = Inr (num, den)" "round_truediv num den = Inr rate"
      by auto
    then show "rate = 30
            \<or> (\<exists>r num den. subprocess_run h (probe_call input_video) = Inr r
                  \<and> parse_fraction h (stdout r) = Inr (num, den)
                  \<and> round_truediv num den = Inr rate
                  \<and> (0 < den \<and> den \<le> num \<longrightarrow> 0 < rate))"
    proof cases
      case 1
      then show ?thesis by simp
    next
      case 2
      have "0 < den \<and> den \<le> num \<longrightarrow> 0 < rate"
        using round_truediv_at_least_one [OF _ _ 2(3)] by auto
      with 2 show ?thesis by blast
    qed
  qed
  ultimately show ?thesis by blast
qed

theorem extract_video_rate_sign_witness:
  "result (extract_video (quiet_host ''25/1'') ''in.mp4'' ''tmp'' 0) = Inr 25
   \<and> decode_call ''in.mp4'' ''tmp'' 25
        \<in> set (calls (extract_video (quiet_host ''25/1'') ''in.mp4'' ''tmp'' 0))
   \<and> (0::int) < 25"
proof -
  have r: "result (extract_video (quiet_host ''25/1'') ''in.mp4'' ''tmp'' 0) = Inr 25"
    by (simp add: extract_defs parse_defs quiet_host_def truediv_defs)
  show ?thesis using extract_video_rate_sign [OF r] r by simp
qed

text \<open>
  Claim C8.  Once the directory is made, the rate is settled and the decode command has
  succeeded, \<^verbatim>\<open>extract_video\<close> returns the rate whatever the exit status of the audio
  command, which is run last, without \<^verbatim>\<open>check\<close> and with both of its streams sent to
  \<^verbatim>\<open>DEVNULL\<close>.
\<close>

theorem extract_video_audio_failure_ignored:
  assumes "makedirs_failure h output_folder = None"
    and "result (detect_frame_rate h input_video frame_rate) = Inr rate"
    and "subprocess_run h (decode_call input_video output_folder rate) = Inr r"
  shows "result (extract_video h input_video output_folder frame_rate) = Inr rate
       \<and> last (calls (extract_video h input_video output_folder frame_rate))
           = audio_call input_video output_folder
       \<and> \<not> check (audio_call input_video output_folder)
       \<and> stdout_to (audio_call input_video output_folder) = DEVNULL
       \<and> stderr_to (audio_call input_video output_folder) = DEVNULL"
proof -
  have res: "result (extract_video h input_video output_folder frame_rate) = Inr rate"
    using extract_video_after_detect [OF assms(1,2)] assms(3) by simp
  from extract_video_returns(4) [OF res] show ?thesis
    by (simp add: res audio_call_def)
qed

text \<open>A source with no audio stream: the audio command exits with status 1.\<close>

theorem extract_video_audio_failure_ignored_witness:
  "returncode (child_result (silent_source_host ''10/1'')
      (args (audio_call ''in.mp4'' ''tmp''))) = 1
   \<and> result (extract_video (silent_source_host ''10/1'') ''in.mp4'' ''tmp'' 0) = Inr 10
   \<and> last (calls (extract_video (silent_source_host ''10/1'') ''in.mp4'' ''tmp'' 0))
       = audio_call ''in.mp4'' ''tmp''"
proof -
  have m: "makedirs_failure (silent_source_host ''10/1'') ''tmp'' = None"
    by (simp add: silent_source_host_def)
  have d: "result (detect_frame_rate (silent_source_host ''10/1'') ''in.mp4'' 0) = Inr 10"
    by (simp add: extract_defs parse_defs silent_source_host_def truediv_defs)
  have c: "subprocess_run (silent_source_host ''10/1'') (decode_call ''in.mp4'' ''tmp'' 10)
             = Inr \<lparr>returncode = 0, stdout = ''10/1''\<rparr>"
    by (simp add: subprocess_run_def silent_source_host_def decode_call_def str_int_def
        str_nat.simps path_join_def)
  show ?thesis
    using extract_video_audio_failure_ignored [OF m d c]
    by (simp add: silent_source_host_def audio_call_def)
qed

section \<open>Properties of \<^verbatim>\<open>process_single_frame\<close> and \<^verbatim>\<open>process_frames\<close>\<close>

subsection \<open>The blend\<close>

lemma DIV255_round:
  assumes "a \<le> 65025"
  shows "DIV255 a = (a + 127) div 255"
  using assms unfolding DIV255_def Let_def by arith

lemma byte_bound: "unat (x :: 8 word) \<le> 255"
  using unsigned_less [of x, where 'a = nat] by simp

lemma weighted_sum_bound:
  "unat (b :: 8 word) * (255 - unat (m :: 8 word)) + unat (w :: 8 word) * unat m \<le> 65025"
proof -
  have 1: "unat b * (255 - unat m) \<le> 255 * (255 - unat m)"
    using byte_bound [of b] by (rule mult_le_mono1)
  have 2: "unat w * unat m \<le> 255 * unat m"
    using byte_bound [of w] by (rule mult_le_mono1)
  have 3: "255 * (255 - unat m) + 255 * unat m = 65025"
    using byte_bound [of m] by linarith
  from 1 2 3 show ?thesis by linarith
qed

lemma unat_BLEND8:
  "unat (BLEND8 m b w) = (unat b * (255 - unat m) + unat w * unat m + 127) div 255"
proof -
  let ?t = "unat b * (255 - unat m) + unat w * unat m"
  have t: "?t \<le> 65025" by (rule weighted_sum_bound)
  then have "(?t + 127) div 255 < 256" by simp
  then have "unat (of_nat ((?t + 127) div 255) :: 8 word) = (?t + 127) div 255"
    by (simp add: unat_of_nat)
  then show ?thesis by (simp add: BLEND8_def DIV255_round [OF t])
qed

lemma BLEND8_linear: "linear_blend m b w (BLEND8 m b w)"
  unfolding linear_blend_def Let_def unat_BLEND8 by simp

lemma BLEND8_zero: "BLEND8 0 b w = b"
proof -
  have "unat (BLEND8 0 b w) = unat b" by (simp add: unat_BLEND8)
  then show ?thesis by (simp only: word_unat_eq_iff)
qed

lemma BLEND8_max: "BLEND8 255 b w = w"
proof -
  have "unat (BLEND8 255 b w) = unat w" by (simp add: unat_BLEND8)
  then show ?thesis by (simp only: word_unat_eq_iff)
qed

lemma blend_rgb_linear: "linear_blend_rgb m pb pw (blend_rgb m pb pw)"
  by (cases pb, cases pw) (simp add: blend_rgb_def linear_blend_rgb_def BLEND8_linear)

lemma blend_rgb_zero: "blend_rgb 0 pb pw = pb"
  by (cases pb, cases pw) (simp add: blend_rgb_def BLEND8_zero)

lemma blend_rgb_max: "blend_rgb 255 pb pw = pw"
  by (cases pb, cases pw) (simp add: blend_rgb_def BLEND8_max)

text \<open>
  Claim C1.  For a frame that is a grey image, overlays of the size of the frame and a
  save that succeeds, \<^verbatim>\<open>process_single_frame\<close> replaces the file of the frame by an
  \<^verbatim>\<open>RGB\<close> image of the same size in which every pixel is the linear blend of the black
  overlay's and the white overlay's pixel with the mask as the weight, each channel
  rounded to the nearest byte; where the mask is 0 the pixel is the black overlay's, and
  where it is 255 it is the white overlay's.
\<close>

theorem process_single_frame_blend:
  assumes "content d frame_path = Some (Picture (L msk))"
    and "width (worker_white_img wk) = width msk" "height (worker_white_img wk) = height msk"
    and "width (worker_black_img wk) = width msk" "height (worker_black_img wk) = height msk"
    and "save_outcome lib frame_path = Saved"
  shows "\<exists>c. process_single_frame lib wk d frame_path
               = (d\<lparr>content := (content d)(frame_path \<mapsto> Picture (RGB c))\<rparr>, None)
           \<and> width c = width msk \<and> height c = height msk
           \<and> (\<forall>x < width msk. \<forall>y < height msk.
                 linear_blend_rgb (pixel msk x y) (pixel (worker_black_img wk) x y)
                   (pixel (worker_white_img wk) x y) (pixel c x y)
                 \<and> (pixel msk x y = 0 \<longrightarrow> pixel c x y = pixel (worker_black_img wk) x y)
                 \<and> (pixel msk x y = 255 \<longrightarrow> pixel c x y = pixel (worker_white_img wk) x y))"
proof -
  define c where "c = \<lparr>width = width msk, height = height msk,
      pixel = (\<lambda>x y. if x < width msk \<and> y < height msk
                     then blend_rgb (pixel msk x y) (pixel (worker_black_img wk) x y)
                            (pixel (worker_white_img wk) x y)
                     else pixel (worker_black_img wk) x y)\<rparr>"
  have "Image_composite (worker_white_img wk) (worker_black_img wk) msk = Inr c"
    using assms(2-5) by (simp add: Image_composite_def c_def)
  then have "process_single_frame lib wk d frame_path
               = (d\<lparr>content := (content d)(frame_path \<mapsto> Picture (RGB c))\<rparr>, None)"
    using assms(1,6)
    by (simp add: process_single_frame_def Image_open_def load_def convert_L_def Image_save_def)
  moreover have "width c = width msk" "height c = height msk" by (simp_all add: c_def)
  moreover have "\<forall>x < width msk. \<forall>y < height msk.
                 linear_blend_rgb (pixel msk x y) (pixel (worker_black_img wk) x y)
                   (pixel (worker_white_img wk) x y) (pixel c x y)
                 \<and> (pixel msk x y = 0 \<longrightarrow> pixel c x y = pixel (worker_black_img wk) x y)
                 \<and> (pixel msk x y = 255 \<longrightarrow> pixel c x y = pixel (worker_white_img wk) x y)"
    by (simp add: c_def blend_rgb_linear blend_rgb_zero blend_rgb_max)
  ultimately show ?thesis by blast
qed

subsection \<open>One unit touches one file\<close>

lemma process_single_frame_disk:
  "fst (process_single_frame lib wk d p)
     = d\<lparr>content := (content d)(p := content (fst (process_single_frame lib wk d p)) p)\<rparr>"
  by (simp add: process_single_frame_def Image_save_def
      split: sum.splits save_outcome.splits)

lemma process_single_frame_other:
  "q \<noteq> p \<Longrightarrow> content (fst (process_single_frame lib wk d p)) q = content d q"
  by (simp add: process_single_frame_def Image_save_def
      split: sum.splits save_outcome.splits)

lemma process_single_frame_local:
  assumes "content d p = content d' p"
  shows "content (fst (process_single_frame lib wk d p)) p
           = content (fst (process_single_frame lib wk d' p)) p"
    and "snd (process_single_frame lib wk d p) = snd (process_single_frame lib wk d' p)"
  using assms
  by (simp_all add: process_single_frame_def Image_open_def Image_save_def
      split: sum.splits save_outcome.splits)

lemma process_single_frame_failure:
  assumes "snd (process_single_frame lib wk d p) = Some e"
  shows "fst (process_single_frame lib wk d p) = d
       \<or> (\<exists>c. save_outcome lib p = Save_torn e c
              \<and> fst (process_single_frame lib wk d p) = d\<lparr>content := (content d)(p \<mapsto> c)\<rparr>)"
  using assms
  by (auto simp: process_single_frame_def Image_save_def
      split: sum.splits save_outcome.splits)

lemma process_single_frame_commute:
  "fst (process_single_frame lib wk (fst (process_single_frame lib wk d p)) q)
     = fst (process_single_frame lib wk (fst (process_single_frame lib wk d q)) p)"
proof (cases "p = q")
  case True
  then show ?thesis by simp
next
  case False
  let ?f = "\<lambda>d p. fst (process_single_frame lib wk d p)"
  have q: "content (?f (?f d p) q) q = content (?f d q) q"
    using False by (intro process_single_frame_local) (simp add: process_single_frame_other)
  have p: "content (?f (?f d q) p) p = content (?f d p) p"
    using False by (intro process_single_frame_local) (simp add: process_single_frame_other)
  define cp cq where "cp = content (?f d p) p" and "cq = content (?f d q) q"
  have dp: "?f d p = d\<lparr>content := (content d)(p := cp)\<rparr>"
    unfolding cp_def by (rule process_single_frame_disk)
  have dq: "?f d q = d\<lparr>content := (content d)(q := cq)\<rparr>"
    unfolding cq_def by (rule process_single_frame_disk)
  have "?f (?f d p) q = (?f d p)\<lparr>content := (content (?f d p))(q := cq)\<rparr>"
    using process_single_frame_disk [of lib wk "?f d p" q] by (simp only: q cq_def)
  then have 1: "?f (?f d p) q = d\<lparr>content := (content d)(p := cp, q := cq)\<rparr>"
    by (simp add: dp)
  have "?f (?f d q) p = (?f d q)\<lparr>content := (content (?f d q))(p := cp)\<rparr>"
    using process_single_frame_disk [of lib wk "?f d q" p] by (simp only: p cp_def)
  then have 2: "?f (?f d q) p = d\<lparr>content := (content d)(q := cq, p := cp)\<rparr>"
    by (simp add: dq)
  show ?thesis using False unfolding 1 2 by (simp add: fun_upd_twist)
qed

subsection \<open>The pool\<close>

lemma completion_order_mset: "mset (completion_order cs xs) = mset xs"
proof (induction cs xs rule: completion_order.induct)
  case (3 c cs x xs)
  define i where "i = c mod length (x # xs)"
  have i: "i < length (x # xs)" by (simp add: i_def)
  have "completion_order (c # cs) (x # xs)
          = (x # xs) ! i # completion_order cs (take i (x # xs) @ drop (Suc i) (x # xs))"
    by (simp only: completion_order.simps Let_def i_def)
  then have "mset (completion_order (c # cs) (x # xs))
          = mset ((x # xs) ! i # take i (x # xs) @ drop (Suc i) (x # xs))"
    using "3.IH" [OF i_def] by (simp only: mset.simps)
  also have "\<dots> = mset (take i (x # xs) @ (x # xs) ! i # drop (Suc i) (x # xs))"
    by simp
  also have "\<dots> = mset (x # xs)"
    using id_take_nth_drop [OF i] by simp
  finally show ?case .
qed simp_all

lemma run_units_disk:
  "fst (run_units lib wk ps d out) = fold (\<lambda>p d. fst (process_single_frame lib wk d p)) ps d"
  by (induction ps arbitrary: d out) (auto split: prod.splits option.splits)

lemma fold_units_permuted:
  assumes "mset ps = mset qs"
  shows "fold (\<lambda>p d. fst (process_single_frame lib wk d p)) ps d
           = fold (\<lambda>p d. fst (process_single_frame lib wk d p)) qs d"
proof -
  have "fold (\<lambda>p d. fst (process_single_frame lib wk d p)) ps
          = fold (\<lambda>p d. fst (process_single_frame lib wk d p)) qs"
    using assms
    by (intro fold_multiset_equiv) (auto simp: fun_eq_iff process_single_frame_commute)
  then show ?thesis by simp
qed

lemma run_units_each:
  assumes "distinct ps" "\<forall>p \<in> set ps. content d' p = content d p"
  shows "(\<forall>p \<in> set ps. content (fst (run_units lib wk ps d' out)) p
                          = content (fst (process_single_frame lib wk d p)) p)
       \<and> (\<forall>q. q \<notin> set ps \<longrightarrow> content (fst (run_units lib wk ps d' out)) q = content d' q)
       \<and> snd (run_units lib wk ps d' out)
           = out @ map (Print_exc ''Error processing a frame: '')
                     (List.map_filter (\<lambda>p. snd (process_single_frame lib wk d p)) ps)"
  using assms
proof (induction ps arbitrary: d' out)
  case Nil
  then show ?case by (simp add: List.map_filter_simps)
next
  case (Cons p ps)
  obtain d'' r where step: "process_single_frame lib wk d' p = (d'', r)"
    by (cases "process_single_frame lib wk d' p")
  have same: "content d' p = content d p" using Cons.prems by simp
  have r: "snd (process_single_frame lib wk d p) = r"
    using process_single_frame_local(2) [OF same, of lib wk] step by simp
  have cp: "content d'' p = content (fst (process_single_frame lib wk d p)) p"
    using process_single_frame_local(1) [OF same, of lib wk] step by simp
  have other: "content d'' q = content d' q" if "q \<noteq> p" for q
    using process_single_frame_other [OF that, of lib wk d'] step by simp
  have dist: "distinct ps" "p \<notin> set ps" using Cons.prems by simp_all
  have agree: "\<forall>q \<in> set ps. content d'' q = content d q"
  proof
    fix q assume q: "q \<in> set ps"
    then have "q \<noteq> p" using dist(2) by auto
    then have "content d'' q = content d' q" by (rule other)
    also have "\<dots> = content d q" using Cons.prems(2) q by simp
    finally show "content d'' q = content d q" .
  qed
  note ih = Cons.IH [OF dist(1) agree]
  show ?case
  proof (cases r)
    case None
    have ru: "run_units lib wk (p # ps) d' out = run_units lib wk ps d'' out"
      using step None by simp
    show ?thesis
      unfolding ru using ih [of out] dist(2) cp other r None
      by (auto simp: List.map_filter_simps)
  next
    case (Some e)
    have ru: "run_units lib wk (p # ps) d' out
                = run_units lib wk ps d'' (out @ [Print_exc ''Error processing a frame: '' e])"
      using step Some by simp
    show ?thesis
      unfolding ru using ih [of "out @ [Print_exc ''Error processing a frame: '' e]"] dist(2) cp other r Some
      by (auto simp: List.map_filter_simps)
  qed
qed

lemma run_units_permuted:
  assumes "mset ps = mset qs"
  shows "fst (run_units lib wk ps d out) = fst (run_units lib wk qs d out')"
  by (simp add: run_units_disk fold_units_permuted [OF assms])

lemma process_frames_dispatch:
  assumes "open_overlay d black_image_path = Inr black_img"
    and "open_overlay d white_image_path = Inr white_img"
    and "sort (glob_frames d frames_folder) = first # rest"
    and "Image_open d first = Inr first_frame"
    and "wk = init_worker (resize lib black_img (image_size first_frame))
                          (resize lib white_img (image_size first_frame))"
  shows "process_frames lib schedule d frames_folder black_image_path white_image_path
           = \<lparr>disk_after = fst (run_units lib wk (completion_order schedule (first # rest)) d
                                  [Print ''Processing frames...'']),
              shown = snd (run_units lib wk (completion_order schedule (first # rest)) d
                             [Print ''Processing frames...'']),
              raised = None\<rparr>"
  using assms by (simp add: process_frames_def Let_def split_beta)

text \<open>
  Claim C9.  What \<^verbatim>\<open>process_frames\<close> leaves on the disk, and whether it raises, is the
  same for any two orders in which the units of the pool finish: the files written are
  a function of the frames, the overlays and the library alone.
\<close>

theorem process_frames_order_independent:
  "disk_after (process_frames lib schedule d frames_folder black_image_path white_image_path)
     = disk_after (process_frames lib schedule' d frames_folder black_image_path white_image_path)
   \<and> raised (process_frames lib schedule d frames_folder black_image_path white_image_path)
     = raised (process_frames lib schedule' d frames_folder black_image_path white_image_path)"
proof (cases "open_overlay d black_image_path")
  case Inl
  then show ?thesis by (simp add: process_frames_def)
next
  case black: (Inr black_img)
  show ?thesis
  proof (cases "open_overlay d white_image_path")
    case Inl
    then show ?thesis using black by (simp add: process_frames_def)
  next
    case white: (Inr white_img)
    show ?thesis
    proof (cases "sort (glob_frames d frames_folder)")
      case Nil
      then show ?thesis using black white by (simp add: process_frames_def)
    next
      case frames: (Cons first rest)
      show ?thesis
      proof (cases "Image_open d first")
        case Inl
        then show ?thesis using black white frames by (simp add: process_frames_def)
      next
        case (Inr first_frame)
        have "mset (completion_order schedule (first # rest))
                = mset (completion_order schedule' (first # rest))"
          by (simp only: completion_order_mset)
        then show ?thesis
          unfolding process_frames_dispatch [OF black white frames Inr refl]
          by (simp add: run_units_permuted)
      qed
    qed
  qed
qed



lemma example_frames:
  "sort (glob_frames example_disk ''tmp'') = [''tmp/frame_00001.png'', ''tmp/frame_00002.png'']"
  by (simp add: glob_frames_def example_disk_def fnmatch_frame_def path_join_def)

lemma example_overlays:
  "open_overlay example_disk ''black.png'' = Inr (flat_image 1 1 (0, 0, 0))"
  "open_overlay example_disk ''white.png'' = Inr (flat_image 1 1 (255, 255, 255))"
  by (simp_all add: open_overlay_def Image_open_def load_def convert_RGB_def example_disk_def)

lemma example_first:
  "Image_open example_disk ''tmp/frame_00001.png'' = Inr (Picture (L example_mask))"
  by (simp add: Image_open_def example_disk_def)

lemma fnmatch_frame_head:
  assumes "fnmatch_frame n"
  shows "n \<noteq> [] \<and> hd n = CHR ''f''"
  using assms by (cases n) (auto simp: fnmatch_frame_def)

lemma path_join_inj:
  assumes "path_join a b = path_join a b'" "fnmatch_frame b" "fnmatch_frame b'"
  shows "b = b'"
  using assms fnmatch_frame_head [of b] fnmatch_frame_head [of b']
  by (auto simp: path_join_def split: if_splits)

lemma glob_frames_distinct:
  assumes "distinct (entries d frames_folder)"
  shows "distinct (sort (glob_frames d frames_folder))"
proof -
  have "inj_on (path_join frames_folder) (set (filter fnmatch_frame (entries d frames_folder)))"
    by (rule inj_onI) (auto dest: path_join_inj)
  then show ?thesis using assms by (simp add: glob_frames_def distinct_map)
qed

text \<open>
  Claim C3, amended.  Once the overlays are open and the size of the first frame is read,
  \<^verbatim>\<open>process_frames\<close> raises nothing; it prints one line for every unit that failed, in
  the order in which the units finish; every frame ends as its own unit alone leaves it,
  whatever happens to the others; and a frame whose unit failed is left as it was,
  unless the failure came while the composite was being written over it.
\<close>

theorem process_frames_failures_isolated:
  assumes "open_overlay d black_image_path = Inr black_img"
    and "open_overlay d white_image_path = Inr white_img"
    and "sort (glob_frames d frames_folder) = first # rest"
    and "Image_open d first = Inr first_frame"
    and "wk = init_worker (resize lib black_img (image_size first_frame))
                          (resize lib white_img (image_size first_frame))"
    and "distinct (entries d frames_folder)"
    and "r = process_frames lib schedule d frames_folder black_image_path white_image_path"
  shows "raised r = None
       \<and> shown r = Print ''Processing frames...''
           # map (Print_exc ''Error processing a frame: '')
               (List.map_filter (\<lambda>p. snd (process_single_frame lib wk d p))
                  (completion_order schedule (first # rest)))
       \<and> (\<forall>p \<in> set (first # rest).
             content (disk_after r) p = content (fst (process_single_frame lib wk d p)) p)
       \<and> (\<forall>p \<in> set (first # rest). \<forall>e.
             snd (process_single_frame lib wk d p) = Some e \<and> \<not> torn (save_outcome lib p)
             \<longrightarrow> content (disk_after r) p = content d p)"
proof -
  let ?order = "completion_order schedule (first # rest)"
  have r: "r = \<lparr>disk_after = fst (run_units lib wk ?order d [Print ''Processing frames...'']),
                shown = snd (run_units lib wk ?order d [Print ''Processing frames...'']),
                raised = None\<rparr>"
    unfolding assms(7) using assms(1-5) by (rule process_frames_dispatch)
  have "distinct (first # rest)"
    using glob_frames_distinct [OF assms(6)] by (simp only: assms(3))
  then have dist: "distinct ?order"
    using completion_order_mset [of schedule "first # rest"] by (metis mset_eq_imp_distinct_iff)
  have set: "set ?order = set (first # rest)"
    using completion_order_mset [of schedule "first # rest"] by (rule mset_eq_setD)
  note each = run_units_each [OF dist, of d d lib wk "[Print ''Processing frames...'']", simplified]
  have 1: "raised r = None" by (simp add: r)
  have 2: "shown r = Print ''Processing frames...''
           # map (Print_exc ''Error processing a frame: '')
               (List.map_filter (\<lambda>p. snd (process_single_frame lib wk d p)) ?order)"
    using each by (simp add: r)
  have 3: "\<forall>p \<in> set (first # rest).
             content (disk_after r) p = content (fst (process_single_frame lib wk d p)) p"
    using each unfolding set by (simp add: r)
  have 4: "\<forall>p \<in> set (first # rest). \<forall>e.
             snd (process_single_frame lib wk d p) = Some e \<and> \<not> torn (save_outcome lib p)
             \<longrightarrow> content (disk_after r) p = content d p"
  proof (intro ballI allI impI)
    fix p e
    assume p: "p \<in> set (first # rest)"
      and "snd (process_single_frame lib wk d p) = Some e \<and> \<not> torn (save_outcome lib p)"
    then have "fst (process_single_frame lib wk d p) = d"
      using process_single_frame_failure [of lib wk d p e] by auto
    moreover have "content (disk_after r) p = content (fst (process_single_frame lib wk d p)) p"
      using 3 p by blast
    ultimately show "content (disk_after r) p = content d p" by simp
  qed
  from 1 2 3 4 show ?thesis by blast
qed

lemmas example_defs = example_disk_def example_imaging_def example_mask_def flat_image_def
  example_worker_def init_worker_def bare_disk_def

lemmas main_defs = process_frames_def open_overlay_def Image_open_def load_def convert_RGB_def
  convert_L_def image_size_def resize_def Image_composite_def Image_save_def
  process_single_frame_def glob_frames_def fnmatch_frame_def path_join_def

text \<open>The frame of the example disk: mask values 0, 255 and 128.\<close>

theorem process_single_frame_blend_witness:
  "content example_disk ''tmp/frame_00001.png'' = Some (Picture (L example_mask))
   \<and> save_outcome (example_imaging Saved) ''tmp/frame_00001.png'' = Saved
   \<and> (\<exists>c. process_single_frame (example_imaging Saved) example_worker example_disk
              ''tmp/frame_00001.png''
            = (example_disk\<lparr>content := (content example_disk)
                 (''tmp/frame_00001.png'' \<mapsto> Picture (RGB c))\<rparr>, None)
          \<and> width c = 3 \<and> height c = 1
          \<and> pixel c 0 0 = (10, 20, 30)
          \<and> pixel c 1 0 = (200, 100, 50)
          \<and> linear_blend_rgb 128 (10, 20, 30) (200, 100, 50) (pixel c 2 0))"
proof -
  have f: "content example_disk ''tmp/frame_00001.png'' = Some (Picture (L example_mask))"
    by (simp add: example_disk_def)
  have s: "save_outcome (example_imaging Saved) ''tmp/frame_00001.png'' = Saved"
    by (simp add: example_imaging_def)
  have w: "width (worker_white_img example_worker) = width example_mask"
    "height (worker_white_img example_worker) = height example_mask"
    "width (worker_black_img example_worker) = width example_mask"
    "height (worker_black_img example_worker) = height example_mask"
    by (simp_all add: example_defs)
  from process_single_frame_blend [OF f w s]
  obtain c where c: "process_single_frame (example_imaging Saved) example_worker example_disk
              ''tmp/frame_00001.png''
            = (example_disk\<lparr>content := (content example_disk)
                 (''tmp/frame_00001.png'' \<mapsto> Picture (RGB c))\<rparr>, None)"
    "width c = width example_mask" "height c = height example_mask"
    and px: "\<forall>x < width example_mask. \<forall>y < height example_mask.
                 linear_blend_rgb (pixel example_mask x y) (pixel (worker_black_img example_worker) x y)
                   (pixel (worker_white_img example_worker) x y) (pixel c x y)
                 \<and> (pixel example_mask x y = 0 \<longrightarrow> pixel c x y = pixel (worker_black_img example_worker) x y)
                 \<and> (pixel example_mask x y = 255 \<longrightarrow> pixel c x y = pixel (worker_white_img example_worker) x y)"
    by blast
  have "pixel c 0 0 = (10, 20, 30)" "pixel c 1 0 = (200, 100, 50)"
    "linear_blend_rgb 128 (10, 20, 30) (200, 100, 50) (pixel c 2 0)"
    using px [rule_format, of 0 0] px [rule_format, of 1 0] px [rule_format, of 2 0]
    by (simp_all add: example_defs)
  with f s c show ?thesis by (auto simp: example_mask_def)
qed

text \<open>The example disk: the second frame cannot be read, and stays as it was.\<close>

theorem process_frames_failures_isolated_witness:
  "distinct (entries example_disk ''tmp'')
   \<and> raised (process_frames (example_imaging Saved) [1] example_disk ''tmp'' ''black.png'' ''white.png'')
       = None
   \<and> shown (process_frames (example_imaging Saved) [1] example_disk ''tmp'' ''black.png'' ''white.png'')
       = [Print ''Processing frames...'', Print_exc ''Error processing a frame: '' OSError]
   \<and> content (disk_after (process_frames (example_imaging Saved) [1] example_disk ''tmp''
                  ''black.png'' ''white.png'')) ''tmp/frame_00002.png''
       = Some (Truncated_picture 3 1)"
proof -
  define wk where "wk = init_worker
      (resize (example_imaging Saved) (flat_image 1 1 (0, 0, 0)) (image_size (Picture (L example_mask))))
      (resize (example_imaging Saved) (flat_image 1 1 (255, 255, 255)) (image_size (Picture (L example_mask))))"
  have dist: "distinct (entries example_disk ''tmp'')" by (simp add: example_disk_def)
  have u1: "snd (process_single_frame (example_imaging Saved) wk example_disk ''tmp/frame_00001.png'') = None"
    by (simp add: main_defs example_defs wk_def)
  have u2: "snd (process_single_frame (example_imaging Saved) wk example_disk ''tmp/frame_00002.png'')
              = Some OSError"
    by (simp add: main_defs example_defs wk_def)
  have ord: "completion_order [1] [''tmp/frame_00001.png'', ''tmp/frame_00002.png'']
               = [''tmp/frame_00002.png'', ''tmp/frame_00001.png'']"
    by (simp add: Let_def)
  have nt: "\<not> torn (save_outcome (example_imaging Saved) ''tmp/frame_00002.png'')"
    by (simp add: example_imaging_def)
  have c: "content (fst (process_single_frame (example_imaging Saved) wk example_disk
                ''tmp/frame_00002.png'')) ''tmp/frame_00002.png'' = Some (Truncated_picture 3 1)"
    by (simp add: main_defs example_defs wk_def)
  from process_frames_failures_isolated
    [OF example_overlays example_frames example_first wk_def dist refl, of "[1]"]
  show ?thesis
    using dist u1 u2 nt c by (simp add: ord List.map_filter_simps)
qed

text \<open>
  Claim C3, as stated, fails: when writing the composite fails after the file has been
  opened for writing, the unit's failure is caught and reported, but the frame no longer
  holds its grey image.
\<close>

theorem process_frames_torn_save:
  "raised (process_frames (example_imaging (Save_torn OSError Not_a_picture)) [] example_disk
             ''tmp'' ''black.png'' ''white.png'') = None
   \<and> content example_disk ''tmp/frame_00001.png'' = Some (Picture (L example_mask))
   \<and> content (disk_after (process_frames (example_imaging (Save_torn OSError Not_a_picture)) []
                  example_disk ''tmp'' ''black.png'' ''white.png'')) ''tmp/frame_00001.png''
       = Some Not_a_picture
   \<and> shown (process_frames (example_imaging (Save_torn OSError Not_a_picture)) [] example_disk
             ''tmp'' ''black.png'' ''white.png'')
       = [Print ''Processing frames...'', Print_exc ''Error processing a frame: '' OSError,
          Print_exc ''Error processing a frame: '' OSError]"
  by (simp add: main_defs example_defs Let_def)



subsection \<open>The order of the frame files\<close>

lemma digit_char_code:
  assumes "n < 10"
  shows "of_char (''0123456789'' ! n) = 48 + n"
proof -
  from assms consider "n = 0" | "n = 1" | "n = 2" | "n = 3" | "n = 4"
    | "n = 5" | "n = 6" | "n = 7" | "n = 8" | "n = 9"
    by atomize_elim arith
  then show ?thesis by cases simp_all
qed

lemma digit_char_less:
  assumes "a < 10" "b < 10"
  shows "(''0123456789'' ! a < ''0123456789'' ! b) = (a < b)"
  by (simp add: less_char_def digit_char_code [OF assms(1)] digit_char_code [OF assms(2)])

lemma str_nat_digit: "n < 10 \<Longrightarrow> str_nat n = [''0123456789'' ! n]"
  by (simp add: str_nat.simps [of n])

lemma str_nat_snoc: "10 \<le> n \<Longrightarrow> str_nat n = str_nat (n div 10) @ [''0123456789'' ! (n mod 10)]"
  by (simp add: str_nat.simps [of n])

lemma printf_0d_snoc:
  assumes "0 < k"
  shows "printf_0d (Suc k) n = printf_0d k (n div 10) @ [''0123456789'' ! (n mod 10)]"
proof (cases "n < 10")
  case True
  have "replicate (k - 1) CHR ''0'' @ ''0'' = replicate k CHR ''0''"
    using assms by (cases k) (simp_all add: replicate_append_same)
  then show ?thesis using True by (simp add: printf_0d_def str_nat_digit)
next
  case False
  then show ?thesis by (simp add: printf_0d_def str_nat_snoc)
qed

lemma printf_0d_length:
  assumes "0 < k" "n < 10 ^ k"
  shows "length (printf_0d k n) = k"
  using assms
proof (induction k arbitrary: n rule: nat_induct_non_zero)
  case 1
  then show ?case by (simp add: printf_0d_def str_nat_digit)
next
  case (Suc k)
  from Suc.prems have "n div 10 < 10 ^ k" by (simp add: less_mult_imp_div_less mult.commute)
  then show ?case using Suc.IH Suc.hyps by (simp add: printf_0d_snoc)
qed

lemma snoc_less_snoc:
  assumes "length xs = length ys"
  shows "(xs @ [a] < ys @ [b]) = (xs < ys \<or> xs = ys \<and> a < b)"
  using assms by (induction xs ys rule: list_induct2) auto

lemma append_less_append: "(p @ a < p @ (b :: 'a :: linorder list)) = (a < b)"
  by (induction p) simp_all

lemma less_append_same:
  assumes "length a = length b" "a < (b :: 'a :: linorder list)"
  shows "a @ s < b @ s"
  using assms by (induction a b rule: list_induct2) auto

lemma printf_0d_mono:
  assumes "0 < k" "n < m" "m < 10 ^ k"
  shows "printf_0d k n < printf_0d k m"
  using assms
proof (induction k arbitrary: n m rule: nat_induct_non_zero)
  case 1
  then have less: "n < 10" "m < 10" by simp_all
  then have "printf_0d 1 n = [''0123456789'' ! n]" "printf_0d 1 m = [''0123456789'' ! m]"
    by (simp_all add: printf_0d_def str_nat_digit del: nth_Cons_numeral)
  then show ?case using digit_char_less [OF less] "1.prems"(1)
    by (simp only: Cons_less_Cons) simp
next
  case (Suc k)
  have m: "m div 10 < 10 ^ k" using Suc.prems by (simp add: less_mult_imp_div_less mult.commute)
  have n: "n div 10 < 10 ^ k" using Suc.prems m by (meson div_le_mono le_less_trans less_imp_le)
  have len: "length (printf_0d k (n div 10)) = length (printf_0d k (m div 10))"
    using printf_0d_length [OF Suc.hyps n] printf_0d_length [OF Suc.hyps m] by simp
  show ?case
  proof (cases "n div 10 < m div 10")
    case True
    then have "printf_0d k (n div 10) < printf_0d k (m div 10)" using m by (rule Suc.IH)
    then show ?thesis by (simp add: printf_0d_snoc [OF Suc.hyps] snoc_less_snoc [OF len])
  next
    case False
    then have eq: "n div 10 = m div 10" using Suc.prems(1) by (simp add: div_le_mono order_antisym)
    then have "n mod 10 < m mod 10" using Suc.prems(1)
      by (metis add_less_cancel_left mult_div_mod_eq)
    moreover have "n mod 10 < 10" "m mod 10 < 10" by simp_all
    ultimately have d: "''0123456789'' ! (n mod 10) < ''0123456789'' ! (m mod 10)"
      by (simp only: digit_char_less)
    show ?thesis
      unfolding printf_0d_snoc [OF Suc.hyps] eq
      by (simp only: append_less_append Cons_less_Cons d simp_thms)
  qed
qed

lemma frame_path_mono:
  assumes "n < m" "m \<le> 99999"
  shows "path_join frames_folder (frame_name n) < path_join frames_folder (frame_name m)"
proof -
  have m: "m < 10 ^ 5" and n: "n < 10 ^ 5" using assms by simp_all
  have "printf_0d 5 n < printf_0d 5 m" using assms(1) m by (intro printf_0d_mono) simp_all
  moreover have "length (printf_0d 5 n) = length (printf_0d 5 m)"
    using printf_0d_length [OF _ n] printf_0d_length [OF _ m] by simp
  ultimately have "printf_0d 5 n @ ''.png'' < printf_0d 5 m @ ''.png''"
    by (intro less_append_same)
  then have "frame_name n < frame_name m"
    unfolding frame_name_def by (simp only: append_less_append)
  moreover have "path_join frames_folder (frame_name k)
      = (if frames_folder = [] \<or> last frames_folder = CHR ''/'' then frames_folder
         else frames_folder @ ''/'') @ frame_name k" for k
    by (simp add: path_join_def frame_name_def)
  ultimately show ?thesis by (simp only: append_less_append)
qed

lemma frame_name_matches: "n \<le> 99999 \<Longrightarrow> fnmatch_frame (frame_name n)"
  using printf_0d_length [of 5 n]
  by (simp add: fnmatch_frame_def frame_name_def)

text \<open>
  Claim C6.  When the names of the folder that match the pattern are the frame names of
  indices of at most five digits, in any order, the sorted list of frame files lists them
  by ascending index.
\<close>

theorem frame_files_in_index_order:
  assumes "\<forall>n \<in> set ns. n \<le> 99999"
    and "filter fnmatch_frame (entries d frames_folder) = map frame_name ns"
  shows "sort (glob_frames d frames_folder)
           = map (\<lambda>n. path_join frames_folder (frame_name n)) (sort ns)"
proof -
  let ?f = "\<lambda>n. path_join frames_folder (frame_name n)"
  have g: "glob_frames d frames_folder = map ?f ns"
    by (simp add: glob_frames_def assms(2) comp_def)
  have mono: "?f x \<le> ?f y" if "x \<in> set (sort ns)" "y \<in> set (sort ns)" "x \<le> y" for x y
  proof (cases "x = y")
    case True
    then show ?thesis by simp
  next
    case False
    with that have "x < y" "y \<le> 99999" using assms(1) by auto
    then show ?thesis using frame_path_mono [of x y frames_folder] by simp
  qed
  have "sorted_wrt (\<lambda>x y. ?f x \<le> ?f y) (sort ns)"
    using sorted_sort [of ns] by (rule sorted_wrt_mono_rel [rotated]) (rule mono)
  then have "sorted (map ?f (sort ns))" by (simp only: sorted_map)
  moreover have "mset (map ?f (sort ns)) = mset (map ?f ns)" by simp
  ultimately show ?thesis unfolding g by (rule properties_for_sort [rotated])
qed

lemma replicate_numeral_0000: "replicate 4 c = [c, c, c, c]"
  by (simp add: numeral_eq_Suc)

text \<open>The example disk lists frame 2 before frame 1.\<close>

theorem frame_files_in_index_order_witness:
  "filter fnmatch_frame (entries example_disk ''tmp'') = map frame_name [2, 1]
   \<and> sort (glob_frames example_disk ''tmp'') = [''tmp/frame_00001.png'', ''tmp/frame_00002.png'']"
proof -
  have names: "frame_name (Suc 0) = ''frame_00001.png''" "frame_name 2 = ''frame_00002.png''"
    by (simp_all add: frame_name_def printf_0d_def str_nat_digit replicate_numeral_0000)
  have e: "filter fnmatch_frame (entries example_disk ''tmp'') = map frame_name [2, 1]"
    by (simp add: names example_disk_def fnmatch_frame_def)
  have b: "\<forall>n \<in> set [2, 1 :: nat]. n \<le> 99999" by simp
  from frame_files_in_index_order [OF b e]
  show ?thesis using e by (simp add: names path_join_def)
qed

text \<open>With a sixth digit the order of the names is no longer the order of the indices.\<close>

lemma six_digit_name_sorts_before:
  "path_join ''tmp'' (frame_name 100000) < path_join ''tmp'' (frame_name 99999)"
  by (simp add: frame_name_def printf_0d_def str_nat.simps path_join_def)

section \<open>The fallback, and what the probe prints\<close>

text \<open>
  The failures that the \<^verbatim>\<open>except\<close> clause does catch: the probe cannot be found, it
  exits with a status other than zero, or its output does not read as two integers.
  The rate is then 30 and one line is printed.
\<close>

lemma detect_frame_rate_fallback:
  assumes "frame_rate \<le> 0" "probe_frame_rate h input_video = Inl e" "caught e"
  shows "detect_frame_rate h input_video frame_rate
           = \<lparr>calls = [probe_call input_video],
              printed = [Print_exc ''Could not determine FPS automatically, defaulting to 30. Error: '' e],
              result = Inr 30\<rparr>"
  using assms by (simp add: detect_frame_rate_def)

lemma probe_frame_rate_caught:
  "subprocess_run h (probe_call input_video) = Inl FileNotFoundError
     \<Longrightarrow> probe_frame_rate h input_video = Inl FileNotFoundError"
  "subprocess_run h (probe_call input_video) = Inl (CalledProcessError n)
     \<Longrightarrow> probe_frame_rate h input_video = Inl (CalledProcessError n)"
  "subprocess_run h (probe_call input_video) = Inr r \<Longrightarrow> parse_fraction h (stdout r) = Inl e
     \<Longrightarrow> probe_frame_rate h input_video = Inl ValueError"
  by (auto simp: probe_frame_rate_def parse_fraction_def split: list.splits option.splits)

text \<open>
  Every fraction of two integers printed in decimal and followed by a line feed is read
  back as these two integers (when the interpreter limits the digits of a literal, for
  integers within the limit).
\<close>

lemma digit_char_is_digit: "n < 10 \<Longrightarrow> is_digit (''0123456789'' ! n)"
  by (simp add: is_digit_def digit_char_code)

lemma digit_char_val: "n < 10 \<Longrightarrow> digit_val (''0123456789'' ! n) = n"
  by (simp add: digit_val_def digit_char_code)

lemma is_digit_not_underscore: "is_digit c \<Longrightarrow> c \<noteq> CHR ''_''"
  by (auto simp: is_digit_def)

lemma parse_digits_snoc:
  assumes "\<forall>c \<in> set ds. is_digit c" "is_digit c'"
  shows "parse_digits acc cnt (ds @ [c'])
           = (case parse_digits acc cnt ds of
                None \<Rightarrow> None
              | Some (v, k) \<Rightarrow> Some (v * 10 + digit_val c', Suc k))"
  using assms by (induction ds arbitrary: acc cnt) simp_all

lemma str_nat_digits: "\<forall>c \<in> set (str_nat n). is_digit c"
proof (induction n rule: str_nat.induct)
  case (1 n)
  show ?case
  proof (cases "n < 10")
    case True
    then show ?thesis by (simp add: str_nat_digit digit_char_is_digit del: nth_Cons_numeral)
  next
    case False
    then show ?thesis using 1 by (simp add: str_nat_snoc digit_char_is_digit del: nth_Cons_numeral)
  qed
qed

lemma parse_digits_str_nat: "parse_digits 0 0 (str_nat n) = Some (n, length (str_nat n))"
proof (induction n rule: str_nat.induct)
  case (1 n)
  show ?case
  proof (cases "n < 10")
    case True
    then show ?thesis
      by (simp add: str_nat_digit digit_char_is_digit digit_char_val del: nth_Cons_numeral)
  next
    case False
    then have ih: "parse_digits 0 0 (str_nat (n div 10))
                     = Some (n div 10, length (str_nat (n div 10)))"
      using 1 by simp
    have d: "is_digit (''0123456789'' ! (n mod 10))" by (simp add: digit_char_is_digit)
    show ?thesis using False
      by (simp add: str_nat_snoc parse_digits_snoc [OF str_nat_digits d] ih digit_char_val
          del: nth_Cons_numeral)
  qed
qed

lemma str_nat_nonempty: "str_nat n \<noteq> []"
  by (cases "n < 10") (simp_all add: str_nat_digit str_nat_snoc)

lemma parse_literal_str_nat: "parse_literal (str_nat n) = Some (n, length (str_nat n))"
proof (cases "str_nat n")
  case Nil
  then show ?thesis using str_nat_nonempty by simp
next
  case (Cons c cs)
  then have c: "is_digit c" using str_nat_digits [of n] by simp
  have "parse_digits 0 0 (c # cs) = Some (n, length (str_nat n))"
    using parse_digits_str_nat [of n] by (simp only: Cons)
  then show ?thesis using c by (simp add: parse_literal_def Cons)
qed

lemma is_digit_not_space: "is_digit c \<Longrightarrow> \<not> py_isspace c"
  by (auto simp: is_digit_def py_isspace_def Let_def)

lemma is_digit_not_slash: "is_digit c \<Longrightarrow> c \<noteq> CHR ''/''"
  by (auto simp: is_digit_def)

lemma str_strip_unchanged:
  assumes "s \<noteq> []" "\<not> py_isspace (hd s)" "\<not> py_isspace (last s)"
  shows "str_strip s = s"
proof -
  have 1: "dropWhile py_isspace s = s" using assms(1,2) by (cases s) simp_all
  have "rev s \<noteq> []" "\<not> py_isspace (hd (rev s))" using assms(1,3) by (simp_all add: hd_rev)
  then have 2: "dropWhile py_isspace (rev s) = rev s" by (cases "rev s") simp_all
  show ?thesis by (simp add: str_strip_def 1 2)
qed

lemma str_strip_line_feed:
  assumes "s \<noteq> []" "\<not> py_isspace (hd s)" "\<not> py_isspace (last s)"
  shows "str_strip (s @ [CHR 0x0A]) = s"
proof -
  have 1: "dropWhile py_isspace (s @ [CHR 0x0A]) = s @ [CHR 0x0A]"
    using assms(1,2) by (cases s) simp_all
  have "rev s \<noteq> []" "\<not> py_isspace (hd (rev s))" using assms(1,3) by (simp_all add: hd_rev)
  then have 2: "dropWhile py_isspace (rev s) = rev s" by (cases "rev s") simp_all
  have 3: "py_isspace (CHR 0x0A)" by (simp add: py_isspace_def)
  show ?thesis by (simp add: str_strip_def 1 2 3)
qed

lemma str_split_none: "sep \<notin> set s \<Longrightarrow> str_split sep s = [s]"
  by (induction s) auto

lemma str_split_one:
  "sep \<notin> set a \<Longrightarrow> str_split sep (a @ sep # b) = a # str_split sep b"
  by (induction a) auto

lemma str_int_shape:
  "str_int i \<noteq> []" "\<not> py_isspace (hd (str_int i))" "\<not> py_isspace (last (str_int i))"
  "CHR ''/'' \<notin> set (str_int i)"
proof -
  define ds where "ds = str_nat (nat \<bar>i\<bar>)"
  have ds: "ds \<noteq> []" "\<forall>c \<in> set ds. is_digit c"
    by (simp_all add: ds_def str_nat_nonempty str_nat_digits)
  then have h: "is_digit (hd ds)" "is_digit (last ds)" by simp_all
  have s: "str_int i = (if i < 0 then CHR ''-'' # ds else ds)"
    by (simp add: str_int_def ds_def)
  show "str_int i \<noteq> []" using ds by (simp add: s)
  show "\<not> py_isspace (hd (str_int i))"
    using h(1) by (simp add: s is_digit_not_space) (simp add: py_isspace_def)
  show "\<not> py_isspace (last (str_int i))"
    using h(2) ds(1) by (simp add: s is_digit_not_space)
  show "CHR ''/'' \<notin> set (str_int i)"
    using ds(2) by (auto simp: s dest: is_digit_not_slash)
qed

lemma py_int_str_int:
  assumes "max_digits = 0 \<or> length (str_nat (nat \<bar>i\<bar>)) \<le> max_digits"
  shows "py_int max_digits (str_int i) = Some i"
proof -
  define ds where "ds = str_nat (nat \<bar>i\<bar>)"
  have strip: "str_strip (str_int i) = str_int i"
    by (intro str_strip_unchanged str_int_shape)
  have hd: "is_digit (hd ds)" "ds \<noteq> []"
    using str_nat_digits [of "nat \<bar>i\<bar>"] str_nat_nonempty [of "nat \<bar>i\<bar>"] by (simp_all add: ds_def)
  then have sign: "hd ds \<noteq> CHR ''-''" "hd ds \<noteq> CHR ''+''" by (auto simp: is_digit_def)
  have lit: "parse_literal ds = Some (nat \<bar>i\<bar>, length ds)"
    unfolding ds_def by (rule parse_literal_str_nat)
  have lim: "max_digits = 0 \<or> length ds \<le> max_digits"
    using assms by (simp only: ds_def)
  show ?thesis
  proof (cases "i < 0")
    case True
    then have s: "str_int i = CHR ''-'' # ds" by (simp add: str_int_def ds_def)
    have "py_int max_digits (CHR ''-'' # ds) = Some i"
      using True lim lit strip [unfolded s]
      by (auto simp: py_int_def Let_def)
    then show ?thesis by (simp only: s)
  next
    case False
    then have s: "str_int i = ds" by (simp add: str_int_def ds_def)
    have "py_int max_digits ds = Some i"
      using False lim lit hd sign strip [unfolded s]
      by (auto simp: py_int_def Let_def)
    then show ?thesis by (simp only: s)
  qed
qed

lemma parse_fraction_printed:
  assumes "int_max_str_digits h = 0
           \<or> (length (str_nat (nat \<bar>num\<bar>)) \<le> int_max_str_digits h
              \<and> length (str_nat (nat \<bar>den\<bar>)) \<le> int_max_str_digits h)"
  shows "parse_fraction h (str_int num @ ''/'' @ str_int den @ [CHR 0x0A]) = Inr (num, den)"
proof -
  let ?s = "str_int num @ CHR ''/'' # str_int den"
  have "?s \<noteq> []" "\<not> py_isspace (hd ?s)" "\<not> py_isspace (last ?s)"
    using str_int_shape [of num] str_int_shape [of den] by simp_all
  then have "str_strip (?s @ [CHR 0x0A]) = ?s" by (rule str_strip_line_feed)
  then have strip: "str_strip (str_int num @ CHR ''/'' # str_int den @ [CHR 0x0A]) = ?s" by simp
  have split: "str_split CHR ''/'' ?s = [str_int num, str_int den]"
    using str_split_one [OF str_int_shape(4), of num "str_int den"]
      str_split_none [OF str_int_shape(4), of den] by simp
  have "py_int (int_max_str_digits h) (str_int num) = Some num"
    "py_int (int_max_str_digits h) (str_int den) = Some den"
    using assms by (auto intro: py_int_str_int)
  then show ?thesis by (simp add: parse_fraction_def strip split)
qed

end
